theory Spec2Isabelle
  imports Main "HOL-Library.Word"
begin

section \<open>Serial over CAN (src/generic/canbus.c): state and environment\<close>

text \<open>
  The module keeps its state in file-level statics. They are gathered in one record that
  every function takes and returns. Machine integers keep their widths: \<open>uint8_t\<close> is
  \<open>8 word\<close>, \<open>uint32_t\<close> is \<open>32 word\<close> (the 32-bit microcontroller target, where
  \<open>size_t\<close> is 32 bits wide as well), a C \<open>int\<close> that only carries small values is \<open>int\<close>.
\<close>

type_synonym u8 = "8 word"
type_synonym u32 = "32 word"

text \<open>The two wake handles of the module, \<open>canbus_tx_wake\<close> and \<open>canbus_rx_wake\<close>.\<close>

datatype task = TX | RX

text \<open>
  What the module does to the world outside it, in the order it does it: a call of
  \<open>canbus_send\<close> with its identifier, the bytes handed over and the driver's return value,
  a call of \<open>canbus_set_filter\<close>, a call of \<open>sched_wake_task\<close>, the fatal \<open>shutdown\<close> with
  its cause, and \<open>canbus_reboot\<close>.
\<close>

datatype event =
    Send u32 "u8 list" int
  | SetFilter u32
  | WakeTask task
  | Fatal string
  | Reboot

text \<open>
  The identifiers \<open>CANBUS_ID_ADMIN\<close> and \<open>CANBUS_ID_ADMIN_RESP\<close> come from canbus.h, which
  is not part of the sources at hand: they are parameters of the model.
\<close>

record canbus_h =
  CANBUS_ID_ADMIN :: u32
  CANBUS_ID_ADMIN_RESP :: u32

text \<open>
  Modelled from the spec: \<open>CANBUS_UUID_LEN\<close> of canbus.h (not among the sources). The spec
  fixes the UUID at 6 bytes, the bytes 1..6 of an admin frame.
\<close>

definition CANBUS_UUID_LEN :: nat where
  "CANBUS_UUID_LEN = 6"

text \<open>
  The statics of canbus.c, followed by the environment: \<open>hw_send_ret\<close> is the driver's
  answer to the n-th call of \<open>canbus_send\<close>, \<open>hw_sends\<close> counts the calls made so far and
  \<open>trace\<close> lists the events so far, oldest first.
\<close>

record canbus =
  canbus_assigned_id :: u32
  canbus_uuid :: "u8 list"
  canbus_tx_wake :: bool
  transmit_buf :: "u8 list"
  transmit_pos :: u8
  transmit_max :: u8
  canbus_rx_wake :: bool
  receive_buf :: "u8 list"
  receive_pos :: u8
  hw_send_ret :: "nat \<Rightarrow> int"
  hw_sends :: nat
  trace :: "event list"

text \<open>
  A function that may end in \<open>shutdown\<close> or \<open>canbus_reboot\<close> does not return to its caller
  then: \<open>Halt\<close> carries the state at that point, \<open>Continue\<close> the state of a normal return.
\<close>

datatype 'a flow = Continue 'a | Halt 'a

fun state_of :: "'a flow \<Rightarrow> 'a" where
  "state_of (Continue s) = s"
| "state_of (Halt s) = s"

subsection \<open>The collaborators at the boundary\<close>

text \<open>
  Modelled from the spec: the scheduler's \<open>sched_wake_task\<close> (sched.h, not among the
  sources) marks a task runnable; notifications coalesce in one flag.
\<close>

definition sched_wake_task :: "task \<Rightarrow> canbus \<Rightarrow> canbus" where
  "sched_wake_task t s =
     (case t of
        TX \<Rightarrow> s\<lparr>canbus_tx_wake := True, trace := trace s @ [WakeTask TX]\<rparr>
      | RX \<Rightarrow> s\<lparr>canbus_rx_wake := True, trace := trace s @ [WakeTask RX]\<rparr>)"

text \<open>
  Modelled from the spec: the scheduler's \<open>sched_check_wake\<close> (sched.h) reads a wake flag
  and clears it.
\<close>

definition sched_check_wake :: "task \<Rightarrow> canbus \<Rightarrow> bool \<times> canbus" where
  "sched_check_wake t s =
     (case t of
        TX \<Rightarrow> (canbus_tx_wake s, s\<lparr>canbus_tx_wake := False\<rparr>)
      | RX \<Rightarrow> (canbus_rx_wake s, s\<lparr>canbus_rx_wake := False\<rparr>))"

text \<open>
  Modelled from the spec: the driver's \<open>canbus_send(id, len, data)\<close> (canbus.h) is one
  non-blocking attempt; it is handed the first \<open>len\<close> bytes at \<open>data\<close> and answers with an
  \<open>int\<close>, here the next value of \<open>hw_send_ret\<close>.
\<close>

definition canbus_send :: "u32 \<Rightarrow> nat \<Rightarrow> u8 list \<Rightarrow> canbus \<Rightarrow> int \<times> canbus" where
  "canbus_send cid n data s =
     (hw_send_ret s (hw_sends s),
      s\<lparr>hw_sends := Suc (hw_sends s),
        trace := trace s @ [Send cid (take n data) (hw_send_ret s (hw_sends s))]\<rparr>)"

text \<open>Modelled from the spec: the driver's \<open>canbus_set_filter\<close> (canbus.h).\<close>

definition canbus_set_filter :: "u32 \<Rightarrow> canbus \<Rightarrow> canbus" where
  "canbus_set_filter cid s = s\<lparr>trace := trace s @ [SetFilter cid]\<rparr>"

text \<open>Modelled from the spec: the scheduler's fatal \<open>shutdown(msg)\<close> (sched.h), terminal.\<close>

definition shutdown :: "string \<Rightarrow> canbus \<Rightarrow> canbus flow" where
  "shutdown msg s = Halt (s\<lparr>trace := trace s @ [Fatal msg]\<rparr>)"

text \<open>Modelled from the spec: the driver's \<open>canbus_reboot\<close> (canbus.h), terminal.\<close>

definition canbus_reboot :: "canbus \<Rightarrow> canbus flow" where
  "canbus_reboot s = Halt (s\<lparr>trace := trace s @ [Reboot]\<rparr>)"

text \<open>
  \<open>memcpy(&dst[off], src, n)\<close> and \<open>memmove\<close> on byte arrays as lists. Inside the bounds
  (\<open>off + n \<le> length dst\<close> and \<open>n \<le> length src\<close>) the result is \<open>dst\<close> with the \<open>n\<close> bytes
  replaced. The source is the array as it was before the call, as \<open>memmove\<close> has it for
  overlapping ranges. A copy past the end of \<open>dst\<close> shows as a longer list.
\<close>

definition memcpy_at :: "u8 list \<Rightarrow> nat \<Rightarrow> u8 list \<Rightarrow> nat \<Rightarrow> u8 list" where
  "memcpy_at dst off src n = take off dst @ take n src @ drop (off + n) dst"

section \<open>Data transmission over CAN\<close>

definition canbus_notify_tx :: "canbus \<Rightarrow> canbus" where
  "canbus_notify_tx s = sched_wake_task TX s"

text \<open>
  The loop of \<open>canbus_tx_task\<close>. \<open>tpos\<close> and \<open>tmax\<close> are \<open>uint32_t\<close>, their difference is
  converted to \<open>int\<close> (\<open>sint\<close>), and \<open>&transmit_buf[tpos]\<close> is the buffer from \<open>tpos\<close> on.
\<close>

function canbus_tx_loop :: "u32 \<Rightarrow> u32 \<Rightarrow> u32 \<Rightarrow> canbus \<Rightarrow> u32 \<times> canbus" where
  "canbus_tx_loop cid tpos tmax s =
     (let avail = sint (tmax - tpos); now = (if avail > 8 then 8 else avail) in
      if avail \<le> 0 then (tpos, s)
      else (let r = canbus_send (cid + 1) (nat now) (drop (unat tpos) (transmit_buf s)) s in
            if fst r \<le> 0 then (tpos, snd r)
            else canbus_tx_loop cid (tpos + word_of_int now) tmax (snd r)))"
  by pat_completeness auto

lemma sint_minus_chunk:
  fixes d :: u32
  assumes "0 < sint d" and "0 < k" and "k \<le> sint d"
  shows "sint (d - word_of_int k) = sint d - k"
proof -
  have b: "sint d < 2 ^ 31"
    using sint_lt [of d] by simp
  have r: "signed_take_bit 31 (sint d - k) = sint d - k"
    using assms b by (intro signed_take_bit_int_eq_self) auto
  have "sint (d - word_of_int k) = signed_take_bit 31 (sint d - sint (word_of_int k :: u32))"
    by (simp add: sint_word_diff)
  also have "\<dots> = signed_take_bit 31 (sint d - k)"
    using assms b by (simp add: sint_sbintrunc' signed_take_bit_int_eq_self)
  finally show ?thesis using r by simp
qed

termination canbus_tx_loop
proof (relation "measure (\<lambda>(cid, tpos, tmax, s). nat (sint (tmax - tpos)))", goal_cases)
  case 1
  show ?case by simp
next
  case (2 cid tpos tmax s avail now r)
  have a: "0 < sint (tmax - tpos)"
    using 2 by simp
  have n: "0 < now \<and> now \<le> sint (tmax - tpos)"
    using 2 by (simp split: if_splits)
  have e: "tmax - (tpos + word_of_int now) = (tmax - tpos) - word_of_int now"
    by simp
  have "sint (tmax - (tpos + word_of_int now)) = sint (tmax - tpos) - now"
    unfolding e using sint_minus_chunk [of "tmax - tpos" now] a n by simp
  then show ?case
    using a n by simp
qed

declare canbus_tx_loop.simps [simp del]

definition canbus_tx_task :: "canbus \<Rightarrow> canbus" where
  "canbus_tx_task s0 =
     (let (woken, s) = sched_check_wake TX s0 in
      if \<not> woken then s
      else (let cid = canbus_assigned_id s in
            if cid = 0 then s\<lparr>transmit_pos := 0, transmit_max := 0\<rparr>
            else (let tpos = ucast (transmit_pos s) :: u32;
                      tmax = ucast (transmit_max s) :: u32;
                      (tpos', s') = canbus_tx_loop cid tpos tmax s
                  in s'\<lparr>transmit_pos := ucast tpos'\<rparr>)))"

text \<open>
  Modelled from the spec: the codec's \<open>command_encode_and_frame(&transmit_buf[off], ce, args)\<close>
  (command.h, not among the sources) writes the encoded message at the offset and returns
  its length. \<open>msg\<close> stands for the bytes the encoder produces for \<open>ce\<close> and \<open>args\<close>.
\<close>

definition command_encode_and_frame :: "nat \<Rightarrow> u8 list \<Rightarrow> canbus \<Rightarrow> u32 \<times> canbus" where
  "command_encode_and_frame off msg s =
     (of_nat (length msg),
      s\<lparr>transmit_buf := memcpy_at (transmit_buf s) off msg (length msg)\<rparr>)"

text \<open>
  \<open>console_sendf(ce, args)\<close>. The encoder enters as its field \<open>ce->max_size\<close> and the bytes
  \<open>msg\<close> it encodes. \<open>struct command_encoder\<close> is declared in command.h, which is not among
  the sources, so the width \<open>'w\<close> of the field is a parameter; the code widens it to
  \<open>uint32_t\<close>. \<open>sizeof(transmit_buf)\<close> is 96. The early \<open>return\<close> of the source is the
  first branch below; the sums are 32-bit sums, as in the source.
\<close>

definition console_sendf :: "'w::len word \<Rightarrow> u8 list \<Rightarrow> canbus \<Rightarrow> canbus" where
  "console_sendf ce_max_size msg s0 =
     (let tpos0 = ucast (transmit_pos s0) :: u32;
          tmax0 = ucast (transmit_max s0) :: u32;
          (tpos, tmax, s) =
             (if tpos0 \<ge> tmax0 then (0, 0, s0\<lparr>transmit_pos := 0, transmit_max := 0\<rparr>)
              else (tpos0, tmax0, s0));
          max_size = ucast ce_max_size :: u32
      in if tmax + max_size > 96 \<and> tmax + max_size - tpos > 96 then s
         else
           (let (tmax1, s1) =
                  (if tmax + max_size > 96
                   then (tmax - tpos,
                         s\<lparr>transmit_buf :=
                             memcpy_at (transmit_buf s) 0 (drop (unat tpos) (transmit_buf s))
                               (unat (tmax - tpos)),
                           transmit_pos := 0,
                           transmit_max := ucast (tmax - tpos)\<rparr>)
                   else (tmax, s));
                (msglen, s2) = command_encode_and_frame (unat tmax1) msg s1
            in canbus_notify_tx (s2\<lparr>transmit_max := ucast (tmax1 + msglen)\<rparr>)))"

section \<open>CAN admin command handling\<close>

definition CANBUS_CMD_QUERY_UNASSIGNED :: u8 where
  "CANBUS_CMD_QUERY_UNASSIGNED = 0"

definition CANBUS_CMD_QUERY :: u8 where
  "CANBUS_CMD_QUERY = 1"

definition CANBUS_CMD_SET_CANID :: u8 where
  "CANBUS_CMD_SET_CANID = 2"

definition CANBUS_CMD_REBOOT :: u8 where
  "CANBUS_CMD_REBOOT = 3"

definition CANBUS_RESP_NEED_CANID :: u8 where
  "CANBUS_RESP_NEED_CANID = 32"

definition CANBUS_RESP_HAVE_CANID :: u8 where
  "CANBUS_RESP_HAVE_CANID = 33"

text \<open>
  \<open>can_check_uuid\<close>: \<open>memcmp\<close> of the \<open>sizeof(canbus_uuid)\<close> bytes from \<open>data[1]\<close> on against
  the chip's UUID.
\<close>

definition can_check_uuid :: "u32 \<Rightarrow> u32 \<Rightarrow> u8 list \<Rightarrow> canbus \<Rightarrow> bool" where
  "can_check_uuid cid len data s \<longleftrightarrow>
     len \<ge> 7 \<and> take CANBUS_UUID_LEN (drop 1 data) = take CANBUS_UUID_LEN (canbus_uuid s)"

text \<open>
  \<open>can_encode_id\<close> reads the assigned id and returns an \<open>int\<close>: the shifted value is below
  \<open>2 ^ 31\<close>, so the conversion keeps it.
\<close>

definition can_encode_id :: "canbus \<Rightarrow> int" where
  "can_encode_id s =
     (if canbus_assigned_id s = 0 then 0
      else uint (drop_bit 1 (canbus_assigned_id s - 0x100)))"

text \<open>
  \<open>can_decode_id\<close> takes an \<open>int\<close> (its one caller passes the byte \<open>data[7]\<close>) and returns
  \<open>uint32_t\<close>.
\<close>

definition can_decode_id :: "int \<Rightarrow> u32" where
  "can_decode_id encoded_id = word_of_int (push_bit 1 encoded_id + 0x100)"

text \<open>
  The retry loop of \<open>can_send_uuid\<close>: it ends only when the driver answers with a
  non-negative value, so it is a partial function and \<open>None\<close> stands for a loop that never
  ends.
\<close>

partial_function (option) can_send_uuid_retry :: "u32 \<Rightarrow> u8 list \<Rightarrow> canbus \<Rightarrow> canbus option" where
  "can_send_uuid_retry cid data s =
     (if fst (canbus_send cid 8 data s) \<ge> 0 then Some (snd (canbus_send cid 8 data s))
      else can_send_uuid_retry cid data (snd (canbus_send cid 8 data s)))"

text \<open>
  \<open>can_send_uuid\<close>. The local \<open>data[8]\<close> starts uninitialised in C (zeros here); with a
  6-byte UUID every one of its bytes is written before the send.
\<close>

definition can_send_uuid :: "canbus_h \<Rightarrow> canbus \<Rightarrow> canbus option" where
  "can_send_uuid K s =
     (let data0 = replicate 8 (0 :: u8);
          data1 = data0[0 := (if canbus_assigned_id s \<noteq> 0 then CANBUS_RESP_HAVE_CANID
                              else CANBUS_RESP_NEED_CANID)];
          data2 = memcpy_at data1 1 (canbus_uuid s) CANBUS_UUID_LEN;
          data3 = data2[7 := word_of_int (can_encode_id s)]
      in can_send_uuid_retry (CANBUS_ID_ADMIN_RESP K) data3 s)"

definition can_process_query_unassigned ::
  "canbus_h \<Rightarrow> u32 \<Rightarrow> u32 \<Rightarrow> u8 list \<Rightarrow> canbus \<Rightarrow> canbus flow option" where
  "can_process_query_unassigned K cid len data s =
     (if canbus_assigned_id s = 0 then map_option Continue (can_send_uuid K s)
      else Some (Continue s))"

definition can_process_query ::
  "canbus_h \<Rightarrow> u32 \<Rightarrow> u32 \<Rightarrow> u8 list \<Rightarrow> canbus \<Rightarrow> canbus flow option" where
  "can_process_query K cid len data s =
     (if can_check_uuid cid len data s then map_option Continue (can_send_uuid K s)
      else Some (Continue s))"

definition can_process_set_canid ::
  "canbus_h \<Rightarrow> u32 \<Rightarrow> u32 \<Rightarrow> u8 list \<Rightarrow> canbus \<Rightarrow> canbus flow option" where
  "can_process_set_canid K cid len data s =
     (if len < 8 then Some (Continue s)
      else
        (let newid = can_decode_id (uint (data ! 7)) in
         if can_check_uuid cid len data s then
           (let s1 = (if newid \<noteq> canbus_assigned_id s
                      then canbus_set_filter newid (s\<lparr>canbus_assigned_id := newid\<rparr>)
                      else s)
            in map_option Continue (can_send_uuid K s1))
         else if newid = canbus_assigned_id s then
           (let s1 = s\<lparr>canbus_assigned_id := 0\<rparr>;
                s2 = canbus_set_filter (canbus_assigned_id s1) s1
            in map_option (shutdown ''Another CAN node assigned this ID'') (can_send_uuid K s2))
         else Some (Continue s)))"

definition can_process_reboot ::
  "canbus_h \<Rightarrow> u32 \<Rightarrow> u32 \<Rightarrow> u8 list \<Rightarrow> canbus \<Rightarrow> canbus flow option" where
  "can_process_reboot K cid len data s =
     (if can_check_uuid cid len data s then Some (canbus_reboot s)
      else Some (Continue s))"

text \<open>\<open>can_process\<close>: the \<open>switch\<close> on \<open>data[0]\<close>; any other code falls through.\<close>

definition can_process ::
  "canbus_h \<Rightarrow> u32 \<Rightarrow> u32 \<Rightarrow> u8 list \<Rightarrow> canbus \<Rightarrow> canbus flow option" where
  "can_process K cid len data s =
     (if len = 0 then Some (Continue s)
      else if data ! 0 = CANBUS_CMD_QUERY_UNASSIGNED
        then can_process_query_unassigned K cid len data s
      else if data ! 0 = CANBUS_CMD_QUERY then can_process_query K cid len data s
      else if data ! 0 = CANBUS_CMD_SET_CANID then can_process_set_canid K cid len data s
      else if data ! 0 = CANBUS_CMD_REBOOT then can_process_reboot K cid len data s
      else Some (Continue s))"

section \<open>CAN packet reading\<close>

definition canbus_notify_rx :: "canbus \<Rightarrow> canbus" where
  "canbus_notify_rx s = sched_wake_task RX s"

text \<open>
  \<open>can_process_data\<close>. \<open>sizeof(receive_buf)\<close> is 192; \<open>rpos\<close> is an \<open>int\<close> read from a byte,
  so it is never negative, and the subtraction and the sum are unsigned 32-bit ones.
\<close>

definition can_process_data :: "u32 \<Rightarrow> u32 \<Rightarrow> u8 list \<Rightarrow> canbus \<Rightarrow> canbus" where
  "can_process_data cid len0 data s =
     (let rpos = ucast (receive_pos s) :: u32;
          len = (if len0 > 192 - rpos then 192 - rpos else len0)
      in s\<lparr>receive_buf := memcpy_at (receive_buf s) (unat rpos) data (unat len),
            receive_pos := ucast (rpos + len)\<rparr>)"

text \<open>
  The read loop of \<open>canbus_rx_task\<close>. Modelled from the spec: the driver's \<open>canbus_read\<close>
  (canbus.h) hands over the pending frames one by one and answers with a negative value
  when none is left; \<open>frames\<close> are the pending frames, each an identifier and the bytes
  read, whose number is the value returned. After a \<open>Halt\<close> the loop is not resumed.
\<close>

fun canbus_rx_read_loop ::
  "canbus_h \<Rightarrow> (u32 \<times> u8 list) list \<Rightarrow> canbus \<Rightarrow> canbus flow option" where
  "canbus_rx_read_loop K [] s = Some (Continue s)"
| "canbus_rx_read_loop K ((cid, data) # frames) s =
     (if cid \<noteq> 0 \<and> cid = canbus_assigned_id s
        then canbus_rx_read_loop K frames (can_process_data cid (of_nat (length data)) data s)
      else if cid = CANBUS_ID_ADMIN K
        then (case can_process K cid (of_nat (length data)) data s of
                None \<Rightarrow> None
              | Some (Halt s') \<Rightarrow> Some (Halt s')
              | Some (Continue s') \<Rightarrow> canbus_rx_read_loop K frames s')
      else canbus_rx_read_loop K frames s)"

text \<open>
  The second half of \<open>canbus_rx_task\<close>. Modelled from the spec: the codec's
  \<open>command_find_and_dispatch(buf, len, &pop_count)\<close> (command.h) is the parameter \<open>cfd\<close>; it
  answers with its return value and \<open>pop_count\<close>. \<open>needcopy\<close> is an \<open>int\<close>; as the size of
  the \<open>memmove\<close> it is converted to the unsigned \<open>size_t\<close>.
\<close>

definition canbus_rx_pop :: "(u8 list \<Rightarrow> u8 \<Rightarrow> int \<times> u8) \<Rightarrow> canbus \<Rightarrow> canbus" where
  "canbus_rx_pop cfd s =
     (let rpos = receive_pos s;
          (ret, pop_count) = cfd (receive_buf s) rpos
      in if ret \<noteq> 0 then
           (let needcopy = uint rpos - uint pop_count;
                s1 = (if needcopy \<noteq> 0
                      then canbus_notify_rx
                             (s\<lparr>receive_buf :=
                                  memcpy_at (receive_buf s) 0
                                    (drop (unat pop_count) (receive_buf s))
                                    (unat (word_of_int needcopy :: u32))\<rparr>)
                      else s)
            in s1\<lparr>receive_pos := word_of_int needcopy\<rparr>)
         else s\<lparr>receive_pos := rpos\<rparr>)"

definition canbus_rx_task ::
  "canbus_h \<Rightarrow> (u8 list \<Rightarrow> u8 \<Rightarrow> int \<times> u8) \<Rightarrow> (u32 \<times> u8 list) list \<Rightarrow> canbus
     \<Rightarrow> canbus flow option" where
  "canbus_rx_task K cfd frames s0 =
     (let (woken, s) = sched_check_wake RX s0 in
      if \<not> woken then Some (Continue s)
      else (case canbus_rx_read_loop K frames s of
              None \<Rightarrow> None
            | Some (Halt s1) \<Rightarrow> Some (Halt s1)
            | Some (Continue s1) \<Rightarrow> Some (Continue (canbus_rx_pop cfd s1))))"

section \<open>Setup and shutdown\<close>

definition canbus_set_uuid :: "canbus_h \<Rightarrow> u8 list \<Rightarrow> canbus \<Rightarrow> canbus option" where
  "canbus_set_uuid K uuid s =
     can_send_uuid K
       (canbus_notify_rx
          (s\<lparr>canbus_uuid := memcpy_at (canbus_uuid s) 0 uuid CANBUS_UUID_LEN\<rparr>))"

definition canbus_shutdown :: "canbus \<Rightarrow> canbus" where
  "canbus_shutdown s = canbus_notify_rx (canbus_notify_tx s)"

section \<open>Observations on the trace\<close>

text \<open>
  The first \<open>k\<close> attempts to send one and the same frame, when \<open>n\<close> calls of
  \<open>canbus_send\<close> came before: the j-th gets the driver's answer number \<open>n + j\<close>.
\<close>

definition send_attempts :: "(nat \<Rightarrow> int) \<Rightarrow> nat \<Rightarrow> u32 \<Rightarrow> u8 list \<Rightarrow> nat \<Rightarrow> event list" where
  "send_attempts hw n cid d k = map (\<lambda>j. Send cid d (hw (n + j))) [0..<k]"

text \<open>
  The admin responses on the bus: the frames sent on \<open>CANBUS_ID_ADMIN_RESP\<close> that the
  driver took (\<open>can_send_uuid\<close> takes a non-negative answer for that).
\<close>

fun responses :: "canbus_h \<Rightarrow> event list \<Rightarrow> u8 list list" where
  "responses K [] = []"
| "responses K (Send cid d r # es) =
     (if cid = CANBUS_ID_ADMIN_RESP K \<and> 0 \<le> r then d # responses K es else responses K es)"
| "responses K (SetFilter c # es) = responses K es"
| "responses K (WakeTask t # es) = responses K es"
| "responses K (Fatal m # es) = responses K es"
| "responses K (Reboot # es) = responses K es"

text \<open>The causes of the fatal shutdowns in a trace.\<close>

fun fatal_causes :: "event list \<Rightarrow> string list" where
  "fatal_causes [] = []"
| "fatal_causes (Fatal m # es) = m # fatal_causes es"
| "fatal_causes (Send cid d r # es) = fatal_causes es"
| "fatal_causes (SetFilter c # es) = fatal_causes es"
| "fatal_causes (WakeTask t # es) = fatal_causes es"
| "fatal_causes (Reboot # es) = fatal_causes es"

text \<open>The addresses handed to \<open>canbus_set_filter\<close> in a trace.\<close>

fun filters_set :: "event list \<Rightarrow> u32 list" where
  "filters_set [] = []"
| "filters_set (SetFilter c # es) = c # filters_set es"
| "filters_set (Send cid d r # es) = filters_set es"
| "filters_set (WakeTask t # es) = filters_set es"
| "filters_set (Fatal m # es) = filters_set es"
| "filters_set (Reboot # es) = filters_set es"

text \<open>
  The addresses a \<open>SET_CANID\<close> command can assign, said without the code: the even
  identifiers from \<open>0x100\<close> to \<open>0x2FE\<close>. (Lemma \<open>assignable_iff_decode\<close> shows that these
  are the decodings of the 256 byte values.)
\<close>

definition assignable :: "u32 \<Rightarrow> bool" where
  "assignable x \<longleftrightarrow> 0x100 \<le> x \<and> x \<le> 0x2FE \<and> even (unat x)"

section \<open>The transmit buffer as the claims see it\<close>

text \<open>The bytes waiting in the transmit buffer: those in \<open>[position, limit)\<close>.\<close>

definition unsent :: "canbus \<Rightarrow> u8 list" where
  "unsent s =
     take (unat (transmit_max s) - unat (transmit_pos s))
       (drop (unat (transmit_pos s)) (transmit_buf s))"

text \<open>
  The invariant of the transmit buffer: \<open>0 \<le> position \<le> limit \<le> capacity\<close>, with the
  capacity \<open>sizeof(transmit_buf) = 96\<close> the length of the array.
\<close>

definition tx_inv :: "canbus \<Rightarrow> bool" where
  "tx_inv s \<longleftrightarrow>
     unat (transmit_pos s) \<le> unat (transmit_max s) \<and> unat (transmit_max s) \<le> 96 \<and>
     length (transmit_buf s) = 96"

section \<open>The chunker as the specification describes it\<close>

text \<open>
  The pending bytes cut into frames: each takes \<open>min(8, remaining)\<close> bytes, in order.
\<close>

fun chunks8 :: "u8 list \<Rightarrow> u8 list list" where
  "chunks8 xs = (if xs = [] then [] else take 8 xs # chunks8 (drop 8 xs))"

declare chunks8.simps [simp del]

text \<open>
  The sends of one run of the chunker over the frames \<open>cs\<close>, when \<open>n\<close> calls of
  \<open>canbus_send\<close> came before: one attempt per frame, in order, and none after the first
  attempt whose answer is not positive.
\<close>

fun tx_events :: "u32 \<Rightarrow> u8 list list \<Rightarrow> (nat \<Rightarrow> int) \<Rightarrow> nat \<Rightarrow> event list" where
  "tx_events cid [] hw n = []"
| "tx_events cid (c # cs) hw n =
     Send cid c (hw n) # (if hw n \<le> 0 then [] else tx_events cid cs hw (Suc n))"

text \<open>The number of frames the driver took in that run.\<close>

fun tx_accepted :: "u8 list list \<Rightarrow> (nat \<Rightarrow> int) \<Rightarrow> nat \<Rightarrow> nat" where
  "tx_accepted [] hw n = 0"
| "tx_accepted (c # cs) hw n = (if hw n \<le> 0 then 0 else Suc (tx_accepted cs hw (Suc n)))"

text \<open>
  The data bytes on the wire under one identifier: the payloads of the sends the driver
  answered with a positive value (what \<open>canbus_tx_task\<close> takes for sent), oldest first.
\<close>

fun wire_bytes :: "u32 \<Rightarrow> event list \<Rightarrow> u8 list" where
  "wire_bytes cid [] = []"
| "wire_bytes cid (Send c d r # es) =
     (if c = cid \<and> 0 < r then d @ wire_bytes cid es else wire_bytes cid es)"
| "wire_bytes cid (SetFilter c # es) = wire_bytes cid es"
| "wire_bytes cid (WakeTask t # es) = wire_bytes cid es"
| "wire_bytes cid (Fatal m # es) = wire_bytes cid es"
| "wire_bytes cid (Reboot # es) = wire_bytes cid es"

text \<open>
  One run of the woken transmit task from a state \<open>s\<close>, in the words above: the frames
  it has to send, the sends it makes, the number of frames the driver takes and the bytes
  in them.
\<close>

definition tx_frames :: "canbus \<Rightarrow> u8 list list" where
  "tx_frames s = chunks8 (unsent s)"

definition tx_attempts :: "canbus \<Rightarrow> event list" where
  "tx_attempts s =
     tx_events (canbus_assigned_id s + 1) (tx_frames s) (hw_send_ret s) (hw_sends s)"

definition tx_taken :: "canbus \<Rightarrow> nat" where
  "tx_taken s = tx_accepted (tx_frames s) (hw_send_ret s) (hw_sends s)"

definition tx_sent_bytes :: "canbus \<Rightarrow> u8 list" where
  "tx_sent_bytes s = concat (take (tx_taken s) (tx_frames s))"

text \<open>
  The operations on the transmit buffer, to speak about their sequences: an enqueue with
  the encoder's \<open>max_size\<close> and the bytes it encodes, a run of the transmit task, and a
  wake-up of the task from outside (\<open>canbus_notify_tx\<close>).
\<close>

datatype 'm tx_op = Enqueue 'm "u8 list" | RunTxTask | NotifyTx

fun tx_step :: "('w :: len) word tx_op \<Rightarrow> canbus \<Rightarrow> canbus" where
  "tx_step (Enqueue m msg) s = console_sendf m msg s"
| "tx_step RunTxTask s = canbus_tx_task s"
| "tx_step NotifyTx s = canbus_notify_tx s"

fun tx_run :: "('w :: len) word tx_op list \<Rightarrow> canbus \<Rightarrow> canbus" where
  "tx_run [] s = s"
| "tx_run (x # xs) s = tx_run xs (tx_step x s)"

text \<open>The bytes an operation puts into the buffer: those of an enqueue that is not dropped.\<close>

fun tx_adds :: "('w :: len) word tx_op \<Rightarrow> canbus \<Rightarrow> u8 list" where
  "tx_adds (Enqueue m msg) s = (if 96 < length (unsent s) + unat m then [] else msg)"
| "tx_adds RunTxTask s = []"
| "tx_adds NotifyTx s = []"

fun tx_buffered :: "('w :: len) word tx_op list \<Rightarrow> canbus \<Rightarrow> u8 list" where
  "tx_buffered [] s = []"
| "tx_buffered (x # xs) s = tx_adds x s @ tx_buffered xs (tx_step x s)"

text \<open>The bytes of all the messages enqueued, and the sum of their declared sizes.\<close>

fun tx_msgs :: "('w :: len) word tx_op list \<Rightarrow> u8 list" where
  "tx_msgs [] = []"
| "tx_msgs (Enqueue m msg # xs) = msg @ tx_msgs xs"
| "tx_msgs (RunTxTask # xs) = tx_msgs xs"
| "tx_msgs (NotifyTx # xs) = tx_msgs xs"

fun tx_declared :: "('w :: len) word tx_op list \<Rightarrow> nat" where
  "tx_declared [] = 0"
| "tx_declared (Enqueue m msg # xs) = unat m + tx_declared xs"
| "tx_declared (RunTxTask # xs) = tx_declared xs"
| "tx_declared (NotifyTx # xs) = tx_declared xs"

text \<open>Every encoder writes and reports at most its declared \<open>max_size\<close> bytes.\<close>

fun encoders_ok :: "('w :: len) word tx_op list \<Rightarrow> bool" where
  "encoders_ok [] \<longleftrightarrow> True"
| "encoders_ok (Enqueue m msg # xs) \<longleftrightarrow> length msg \<le> unat m \<and> encoders_ok xs"
| "encoders_ok (RunTxTask # xs) \<longleftrightarrow> encoders_ok xs"
| "encoders_ok (NotifyTx # xs) \<longleftrightarrow> encoders_ok xs"

section \<open>The receive buffer as the claims see it\<close>

text \<open>
  The invariant of the receive buffer: \<open>0 \<le> position \<le> capacity\<close>, with the capacity
  \<open>sizeof(receive_buf) = 192\<close> the length of the array.
\<close>

definition rx_inv :: "canbus \<Rightarrow> bool" where
  "rx_inv s \<longleftrightarrow> unat (receive_pos s) \<le> 192 \<and> length (receive_buf s) = 192"

section \<open>States and parameters for worked examples\<close>

text \<open>
  The statics as the C runtime zero-initialises them, before any call; the UUID of the
  example chip already stored. \<open>hw\<close> are the driver's answers to come.
\<close>

definition boot_state :: "(nat \<Rightarrow> int) \<Rightarrow> canbus" where
  "boot_state hw =
     \<lparr>canbus_assigned_id = 0,
      canbus_uuid = [0xA1, 0xA2, 0xA3, 0xA4, 0xA5, 0xA6],
      canbus_tx_wake = False,
      transmit_buf = replicate 96 0,
      transmit_pos = 0,
      transmit_max = 0,
      canbus_rx_wake = False,
      receive_buf = replicate 192 0,
      receive_pos = 0,
      hw_send_ret = hw,
      hw_sends = 0,
      trace = []\<rparr>"

text \<open>One choice of the two admin identifiers, for the examples.\<close>

definition example_ids :: canbus_h where
  "example_ids = \<lparr>CANBUS_ID_ADMIN = 0x3f0, CANBUS_ID_ADMIN_RESP = 0x3f1\<rparr>"

text \<open>
  The driver rejects \<open>k\<close> attempts in a row (negative answers) and takes the next one,
  when \<open>n\<close> calls came before.
\<close>

definition first_accept :: "(nat \<Rightarrow> int) \<Rightarrow> nat \<Rightarrow> nat \<Rightarrow> bool" where
  "first_accept hw n k \<longleftrightarrow> list_all (\<lambda>j. hw (n + j) < 0) [0..<k] \<and> 0 \<le> hw (n + k)"

text \<open>
  What a retry loop that returns has done between \<open>s\<close> and \<open>s'\<close>: \<open>k\<close> rejected attempts
  and one accepted, all with the same frame, and nothing else.
\<close>

definition retried :: "u32 \<Rightarrow> u8 list \<Rightarrow> canbus \<Rightarrow> canbus \<Rightarrow> nat \<Rightarrow> bool" where
  "retried cid data s s' k \<longleftrightarrow>
     first_accept (hw_send_ret s) (hw_sends s) k \<and>
     s' = s\<lparr>hw_sends := hw_sends s + Suc k,
            trace := trace s @
              send_attempts (hw_send_ret s) (hw_sends s) cid (take 8 data) (Suc k)\<rparr>"

text \<open>
  The response frame \<open>can_send_uuid\<close> builds: the tag, the UUID and the encoded address.
\<close>

definition uuid_response :: "canbus \<Rightarrow> u8 list" where
  "uuid_response s =
     (if canbus_assigned_id s \<noteq> 0 then CANBUS_RESP_HAVE_CANID else CANBUS_RESP_NEED_CANID)
       # canbus_uuid s @ [word_of_int (can_encode_id s)]"

section \<open>Properties of the encoded address\<close>

lemma unat_u8_bound: "unat (x::u8) < 256"
  using unsigned_less [of x, where 'a=nat] by simp

lemma unat_ucast_u8 [simp]: "unat (ucast (x::u8) :: u32) = unat x"
  using unat_u8_bound [of x] by (simp add: unsigned_ucast_eq take_bit_nat_eq_self)

lemma unat_decode: "unat (can_decode_id (uint (e::u8))) = 2 * unat e + 256"
proof -
  have "can_decode_id (uint e) = 2 * ucast e + 256"
    by (simp add: can_decode_id_def push_bit_eq_mult)
  moreover have "unat (2 * ucast e + 256 :: u32) = 2 * unat e + 256"
    using unat_u8_bound [of e] by (simp add: unat_word_ariths)
  ultimately show ?thesis by simp
qed

lemma decode_nonzero: "can_decode_id (uint (e::u8)) \<noteq> 0"
proof
  assume "can_decode_id (uint e) = 0"
  then have "unat (can_decode_id (uint e)) = 0" by simp
  then show False using unat_decode [of e] by simp
qed

lemma encode_decode:
  "can_encode_id (s\<lparr>canbus_assigned_id := can_decode_id (uint (e::u8))\<rparr>) = uint e"
proof -
  let ?x = "can_decode_id (uint e)"
  have le: "(0x100 :: u32) \<le> ?x"
    using unat_decode [of e] by (simp add: word_le_nat_alt)
  have "unat (?x - 0x100) = 2 * unat e"
    using unat_sub [OF le] unat_decode [of e] by simp
  then have "drop_bit 1 (unat (?x - 0x100)) = unat e"
    by (simp add: drop_bit_eq_div)
  then have "unat (drop_bit 1 (?x - 0x100)) = unat e"
    by (simp only: unat_drop_bit_eq)
  then have "uint (drop_bit 1 (?x - 0x100)) = uint e"
    by (metis uint_nat)
  then show ?thesis
    unfolding can_encode_id_def using decode_nonzero [of e] by simp
qed

section \<open>Lemmas on the trace and on the retry loop\<close>

lemma responses_append: "responses K (a @ b) = responses K a @ responses K b"
  by (induction K a rule: responses.induct) simp_all

lemma fatal_causes_append: "fatal_causes (a @ b) = fatal_causes a @ fatal_causes b"
  by (induction a rule: fatal_causes.induct) simp_all

lemma filters_set_append: "filters_set (a @ b) = filters_set a @ filters_set b"
  by (induction a rule: filters_set.induct) simp_all

lemma send_attempts_Suc:
  "send_attempts hw n cid d (Suc k) = Send cid d (hw n) # send_attempts hw (Suc n) cid d k"
  unfolding send_attempts_def
  by (simp add: upt_conv_Cons map_Suc_upt [symmetric] del: upt_Suc)

lemma send_attempts_0: "send_attempts hw n cid d 0 = []"
  by (simp add: send_attempts_def)

lemma fatal_causes_attempts: "fatal_causes (send_attempts hw n cid d k) = []"
  by (induction k arbitrary: n) (simp_all add: send_attempts_0 send_attempts_Suc)

lemma filters_set_attempts: "filters_set (send_attempts hw n cid d k) = []"
  by (induction k arbitrary: n) (simp_all add: send_attempts_0 send_attempts_Suc)

lemma first_accept_iff:
  "first_accept hw n k \<longleftrightarrow> (\<forall>j<k. hw (n + j) < 0) \<and> 0 \<le> hw (n + k)"
  by (auto simp add: first_accept_def list_all_iff)

lemma first_accept_0: "first_accept hw n 0 \<longleftrightarrow> 0 \<le> hw n"
  by (simp add: first_accept_def)

lemma first_accept_Suc: "first_accept hw n (Suc k) \<longleftrightarrow> hw n < 0 \<and> first_accept hw (Suc n) k"
proof -
  have "(\<forall>j<Suc k. hw (n + j) < 0) \<longleftrightarrow> hw n < 0 \<and> (\<forall>j<k. hw (Suc n + j) < 0)"
  proof
    assume a: "\<forall>j<Suc k. hw (n + j) < 0"
    have "hw n < 0" using a by force
    moreover have "\<forall>j<k. hw (Suc n + j) < 0" using a by force
    ultimately show "hw n < 0 \<and> (\<forall>j<k. hw (Suc n + j) < 0)" ..
  next
    assume b: "hw n < 0 \<and> (\<forall>j<k. hw (Suc n + j) < 0)"
    show "\<forall>j<Suc k. hw (n + j) < 0"
    proof (intro allI impI)
      fix j assume "j < Suc k"
      then show "hw (n + j) < 0"
        using b by (cases j) simp_all
    qed
  qed
  then show ?thesis
    by (simp add: first_accept_iff)
qed

lemma responses_attempts:
  "first_accept hw n k \<Longrightarrow>
   responses K (send_attempts hw n (CANBUS_ID_ADMIN_RESP K) d (Suc k)) = [d]"
proof (induction k arbitrary: n)
  case 0
  then show ?case by (simp add: send_attempts_Suc send_attempts_0 first_accept_0)
next
  case (Suc k)
  then show ?case
    by (simp add: first_accept_Suc send_attempts_Suc [of hw n])
qed

lemma retried_first:
  assumes "0 \<le> hw_send_ret s (hw_sends s)"
  shows "retried cid data s (snd (canbus_send cid 8 data s)) 0"
  using assms
  by (simp add: retried_def first_accept_0 canbus_send_def send_attempts_Suc send_attempts_0)

lemma retried_later:
  assumes neg: "hw_send_ret s (hw_sends s) < 0"
    and r: "retried cid data (snd (canbus_send cid 8 data s)) s' k"
  shows "retried cid data s s' (Suc k)"
proof -
  let ?s1 = "snd (canbus_send cid 8 data s)"
  have hw: "hw_send_ret ?s1 = hw_send_ret s" and n: "hw_sends ?s1 = Suc (hw_sends s)"
    by (simp_all add: canbus_send_def)
  have a: "first_accept (hw_send_ret s) (hw_sends s) (Suc k)"
    using r neg unfolding retried_def by (simp add: first_accept_Suc hw n)
  have "s' = ?s1\<lparr>hw_sends := hw_sends ?s1 + Suc k,
            trace := trace ?s1 @
              send_attempts (hw_send_ret ?s1) (hw_sends ?s1) cid (take 8 data) (Suc k)\<rparr>"
    using r unfolding retried_def by blast
  then have c: "s' = s\<lparr>hw_sends := hw_sends s + Suc (Suc k),
            trace := trace s @
              send_attempts (hw_send_ret s) (hw_sends s) cid (take 8 data) (Suc (Suc k))\<rparr>"
    by (simp add: canbus_send_def send_attempts_Suc [of _ "hw_sends s"])
  show ?thesis
    unfolding retried_def by (intro conjI a c)
qed

lemma retry_SomeD:
  assumes "can_send_uuid_retry cid data s = Some s'"
  shows "\<exists>k. retried cid data s s' k"
proof (rule can_send_uuid_retry.raw_induct
    [where P = "\<lambda>cid data s s'. \<exists>k. retried cid data s s' k", OF _ assms])
  fix f :: "u32 \<Rightarrow> u8 list \<Rightarrow> canbus \<Rightarrow> canbus option" and cid data s y
  assume ih: "\<And>a b c y. f a b c = Some y \<Longrightarrow> \<exists>k. retried a b c y k"
    and eq: "(if 0 \<le> fst (canbus_send cid 8 data s)
              then Some (snd (canbus_send cid 8 data s))
              else f cid data (snd (canbus_send cid 8 data s))) = Some y"
  show "\<exists>k. retried cid data s y k"
  proof (cases "0 \<le> hw_send_ret s (hw_sends s)")
    case True
    then have "y = snd (canbus_send cid 8 data s)"
      using eq by (simp add: canbus_send_def)
    then show ?thesis
      using retried_first [OF True] by blast
  next
    case False
    then have "f cid data (snd (canbus_send cid 8 data s)) = Some y"
      using eq by (simp add: canbus_send_def)
    from ih [OF this] obtain k where "retried cid data (snd (canbus_send cid 8 data s)) y k" ..
    then have "retried cid data s y (Suc k)"
      using False by (intro retried_later) simp_all
    then show ?thesis ..
  qed
qed

lemma retry_accepts:
  assumes "first_accept (hw_send_ret s) (hw_sends s) k"
  shows "\<exists>s'. can_send_uuid_retry cid data s = Some s' \<and> retried cid data s s' k"
  using assms
proof (induction k arbitrary: s)
  case 0
  then have "can_send_uuid_retry cid data s = Some (snd (canbus_send cid 8 data s))"
    by (subst can_send_uuid_retry.simps) (simp add: canbus_send_def first_accept_0)
  then show ?case
    using retried_first [of s cid data] 0 by (simp add: first_accept_0)
next
  case (Suc k)
  let ?s1 = "snd (canbus_send cid 8 data s)"
  have neg: "hw_send_ret s (hw_sends s) < 0"
    using Suc.prems by (simp add: first_accept_Suc)
  have a: "first_accept (hw_send_ret ?s1) (hw_sends ?s1) k"
    using Suc.prems by (simp add: first_accept_Suc canbus_send_def)
  from Suc.IH [OF a] obtain s' where
    s': "can_send_uuid_retry cid data ?s1 = Some s'" "retried cid data ?s1 s' k"
    by blast
  have "can_send_uuid_retry cid data s = can_send_uuid_retry cid data ?s1"
    using neg by (subst can_send_uuid_retry.simps) (simp add: canbus_send_def)
  then show ?case
    using s' retried_later [OF neg s'(2)] by simp
qed

lemma retry_accepts_eq:
  assumes "first_accept (hw_send_ret s) (hw_sends s) k"
  shows "can_send_uuid_retry cid data s =
     Some (s\<lparr>hw_sends := hw_sends s + Suc k,
             trace := trace s @
               send_attempts (hw_send_ret s) (hw_sends s) cid (take 8 data) (Suc k)\<rparr>)"
  using retry_accepts [OF assms, of cid data] unfolding retried_def by auto

lemma uuid_frame:
  assumes "length u = CANBUS_UUID_LEN"
  shows "(memcpy_at ((replicate 8 0)[0 := t]) 1 u CANBUS_UUID_LEN)[7 := e] = t # u @ [e]"
proof -
  obtain a b c d f g where "u = [a, b, c, d, f, g]"
    using assms unfolding CANBUS_UUID_LEN_def
    by (auto simp add: eval_nat_numeral length_Suc_conv)
  then show ?thesis
    by (simp add: memcpy_at_def CANBUS_UUID_LEN_def eval_nat_numeral)
qed

lemma assignable_iff_decode:
  "assignable x \<longleftrightarrow> (\<exists>e::u8. x = can_decode_id (uint e))"
proof
  assume a: "assignable x"
  then have lo: "256 \<le> unat x" and hi: "unat x \<le> 766" and ev: "even (unat x)"
    by (simp_all add: assignable_def word_le_nat_alt)
  define m where "m = (unat x - 256) div 2"
  have m: "m < 256" "unat x = 2 * m + 256"
    using lo hi ev unfolding m_def by presburger+
  have "unat (of_nat m :: u8) = m"
    using m(1) by (simp add: unat_of_nat)
  then have "unat (can_decode_id (uint (of_nat m :: u8))) = unat x"
    using m(2) by (simp add: unat_decode)
  then have "x = can_decode_id (uint (of_nat m :: u8))"
    by (simp add: word_unat_eq_iff)
  then show "\<exists>e::u8. x = can_decode_id (uint e)" by blast
next
  assume "\<exists>e::u8. x = can_decode_id (uint e)"
  then obtain e :: u8 where e: "x = can_decode_id (uint e)" by blast
  have "unat x = 2 * unat e + 256"
    using e by (simp add: unat_decode)
  then show "assignable x"
    using unat_u8_bound [of e] by (simp add: assignable_def word_le_nat_alt)
qed

lemma decode_inj: "can_decode_id (uint (a::u8)) = can_decode_id (uint (b::u8)) \<Longrightarrow> a = b"
proof -
  assume "can_decode_id (uint a) = can_decode_id (uint b)"
  then have "unat (can_decode_id (uint a)) = unat (can_decode_id (uint b))" by simp
  then have "unat a = unat b" by (simp add: unat_decode)
  then show "a = b" by (simp add: word_unat_eq_iff)
qed

lemma decode_bij: "bij_betw (\<lambda>e::u8. can_decode_id (uint e)) UNIV {x. assignable x}"
  unfolding bij_betw_def
proof
  show "inj (\<lambda>e::u8. can_decode_id (uint e))"
    by (rule injI) (rule decode_inj)
  show "range (\<lambda>e::u8. can_decode_id (uint e)) = {x. assignable x}"
    by (auto simp add: assignable_iff_decode)
qed

lemma decode_encode:
  assumes "assignable x"
  shows "can_decode_id (can_encode_id (s\<lparr>canbus_assigned_id := x\<rparr>)) = x"
proof -
  obtain e :: u8 where e: "x = can_decode_id (uint e)"
    using assms assignable_iff_decode by blast
  show ?thesis unfolding e by (simp add: encode_decode)
qed

section \<open>Lemmas on the admin commands\<close>

lemma can_send_uuid_retry_form:
  assumes "length (canbus_uuid s) = CANBUS_UUID_LEN"
  shows "can_send_uuid K s = can_send_uuid_retry (CANBUS_ID_ADMIN_RESP K) (uuid_response s) s"
  unfolding can_send_uuid_def uuid_response_def Let_def
  by (simp only: uuid_frame [OF assms])

lemma take8_uuid_response:
  "length (canbus_uuid s) = CANBUS_UUID_LEN \<Longrightarrow> take 8 (uuid_response s) = uuid_response s"
  by (simp add: uuid_response_def CANBUS_UUID_LEN_def)

lemma can_send_uuid_eq:
  assumes u: "length (canbus_uuid s) = CANBUS_UUID_LEN"
    and a: "first_accept (hw_send_ret s) (hw_sends s) k"
  shows "can_send_uuid K s =
     Some (s\<lparr>hw_sends := hw_sends s + Suc k,
             trace := trace s @
               send_attempts (hw_send_ret s) (hw_sends s) (CANBUS_ID_ADMIN_RESP K)
                 (uuid_response s) (Suc k)\<rparr>)"
  by (simp only: can_send_uuid_retry_form [OF u] retry_accepts_eq [OF a] take8_uuid_response [OF u])

lemma can_send_uuid_SomeD:
  assumes "can_send_uuid K s = Some s'"
  shows "canbus_assigned_id s' = canbus_assigned_id s \<and>
         fatal_causes (trace s') = fatal_causes (trace s) \<and>
         filters_set (trace s') = filters_set (trace s) \<and>
         receive_pos s' = receive_pos s \<and> receive_buf s' = receive_buf s"
proof -
  from assms obtain d where "can_send_uuid_retry (CANBUS_ID_ADMIN_RESP K) d s = Some s'"
    unfolding can_send_uuid_def Let_def by blast
  from retry_SomeD [OF this] obtain k where "retried (CANBUS_ID_ADMIN_RESP K) d s s' k" ..
  then have "s' = s\<lparr>hw_sends := hw_sends s + Suc k,
            trace := trace s @
              send_attempts (hw_send_ret s) (hw_sends s) (CANBUS_ID_ADMIN_RESP K) (take 8 d) (Suc k)\<rparr>"
    unfolding retried_def by blast
  then show ?thesis
    by (simp add: fatal_causes_append fatal_causes_attempts filters_set_append
        filters_set_attempts)
qed

lemma set_canid_reached:
  "data ! 0 = CANBUS_CMD_SET_CANID \<Longrightarrow> 8 \<le> len \<Longrightarrow>
   can_process K cid len data s = can_process_set_canid K cid len data s"
proof -
  assume c: "data ! 0 = CANBUS_CMD_SET_CANID" and l: "8 \<le> len"
  have "len \<noteq> 0" using l by auto
  then show ?thesis
    unfolding can_process_def using c
    by (simp add: CANBUS_CMD_SET_CANID_def CANBUS_CMD_QUERY_def CANBUS_CMD_QUERY_UNASSIGNED_def)
qed

lemma check_uuid_iff:
  assumes "8 \<le> len" and "length (canbus_uuid s) = CANBUS_UUID_LEN"
  shows "can_check_uuid cid len data s \<longleftrightarrow> take CANBUS_UUID_LEN (drop 1 data) = canbus_uuid s"
proof -
  have "7 \<le> len"
    using assms(1) by (simp add: word_le_nat_alt)
  then show ?thesis
    unfolding can_check_uuid_def using assms(2) by simp
qed


lemma encode_of_decoded:
  assumes "canbus_assigned_id s = can_decode_id (uint (e::u8))"
  shows "can_encode_id s = uint e"
proof -
  have "s\<lparr>canbus_assigned_id := can_decode_id (uint e)\<rparr> = s"
    using assms by simp
  then show ?thesis
    using encode_decode [where s = s and e = e] by simp
qed

lemma set_canid_collision:
  assumes len8: "8 \<le> len"
    and ulen: "length (canbus_uuid s) = CANBUS_UUID_LEN"
    and other: "take CANBUS_UUID_LEN (drop 1 data) \<noteq> canbus_uuid s"
    and same: "can_decode_id (uint (data ! 7)) = canbus_assigned_id s"
    and acc: "first_accept (hw_send_ret s) (hw_sends s) k"
  shows "can_process_set_canid K cid len data s =
     Some (Halt (s\<lparr>canbus_assigned_id := 0,
                    hw_sends := hw_sends s + Suc k,
                    trace := trace s @ SetFilter 0 #
                      send_attempts (hw_send_ret s) (hw_sends s) (CANBUS_ID_ADMIN_RESP K)
                        (CANBUS_RESP_NEED_CANID # canbus_uuid s @ [0]) (Suc k) @
                      [Fatal ''Another CAN node assigned this ID'']\<rparr>))"
proof -
  let ?s2 = "canbus_set_filter 0 (s\<lparr>canbus_assigned_id := 0\<rparr>)"
  have nc: "\<not> can_check_uuid cid len data s"
    using other by (simp add: check_uuid_iff [OF len8 ulen])
  have nl: "\<not> len < 8"
    using len8 by simp
  have u2: "length (canbus_uuid ?s2) = CANBUS_UUID_LEN"
    using ulen by (simp add: canbus_set_filter_def)
  have a2: "first_accept (hw_send_ret ?s2) (hw_sends ?s2) k"
    using acc by (simp add: canbus_set_filter_def)
  have r: "uuid_response ?s2 = CANBUS_RESP_NEED_CANID # canbus_uuid s @ [0]"
    by (simp add: uuid_response_def canbus_set_filter_def can_encode_id_def)
  have "can_process_set_canid K cid len data s =
      map_option (shutdown ''Another CAN node assigned this ID'') (can_send_uuid K ?s2)"
    unfolding can_process_set_canid_def Let_def using nc nl same by simp
  also have "\<dots> = Some (shutdown ''Another CAN node assigned this ID''
      (?s2\<lparr>hw_sends := hw_sends ?s2 + Suc k,
             trace := trace ?s2 @
               send_attempts (hw_send_ret ?s2) (hw_sends ?s2) (CANBUS_ID_ADMIN_RESP K)
                 (uuid_response ?s2) (Suc k)\<rparr>))"
    by (simp only: can_send_uuid_eq [OF u2 a2] option.map)
  finally show ?thesis
    unfolding r by (simp add: shutdown_def canbus_set_filter_def)
qed

lemma set_canid_match:
  assumes len8: "8 \<le> len"
    and ulen: "length (canbus_uuid s) = CANBUS_UUID_LEN"
    and mine: "take CANBUS_UUID_LEN (drop 1 data) = canbus_uuid s"
    and acc: "first_accept (hw_send_ret s) (hw_sends s) k"
  shows "can_process_set_canid K cid len data s =
     Some (Continue (s\<lparr>canbus_assigned_id := can_decode_id (uint (data ! 7)),
                    hw_sends := hw_sends s + Suc k,
                    trace := trace s @
                      (if can_decode_id (uint (data ! 7)) \<noteq> canbus_assigned_id s
                       then [SetFilter (can_decode_id (uint (data ! 7)))] else []) @
                      send_attempts (hw_send_ret s) (hw_sends s) (CANBUS_ID_ADMIN_RESP K)
                        (CANBUS_RESP_HAVE_CANID # canbus_uuid s @ [data ! 7]) (Suc k)\<rparr>))"
proof -
  let ?new = "can_decode_id (uint (data ! 7))"
  let ?s1 = "if ?new \<noteq> canbus_assigned_id s
             then canbus_set_filter ?new (s\<lparr>canbus_assigned_id := ?new\<rparr>) else s"
  have c: "can_check_uuid cid len data s"
    using mine by (simp add: check_uuid_iff [OF len8 ulen])
  have nl: "\<not> len < 8"
    using len8 by simp
  have id1: "canbus_assigned_id ?s1 = ?new"
    by (simp add: canbus_set_filter_def)
  have u1: "length (canbus_uuid ?s1) = CANBUS_UUID_LEN"
    using ulen by (simp add: canbus_set_filter_def)
  have a1: "first_accept (hw_send_ret ?s1) (hw_sends ?s1) k"
    using acc by (simp add: canbus_set_filter_def)
  have "can_encode_id ?s1 = uint (data ! 7)"
    by (rule encode_of_decoded [OF id1])
  then have r: "uuid_response ?s1 = CANBUS_RESP_HAVE_CANID # canbus_uuid s @ [data ! 7]"
    unfolding uuid_response_def using id1 decode_nonzero [of "data ! 7"]
    by (simp add: canbus_set_filter_def)
  have "can_process_set_canid K cid len data s = map_option Continue (can_send_uuid K ?s1)"
    unfolding can_process_set_canid_def Let_def using c nl by simp
  also have "\<dots> = Some (Continue
      (?s1\<lparr>hw_sends := hw_sends ?s1 + Suc k,
             trace := trace ?s1 @
               send_attempts (hw_send_ret ?s1) (hw_sends ?s1) (CANBUS_ID_ADMIN_RESP K)
                 (uuid_response ?s1) (Suc k)\<rparr>))"
    by (simp only: can_send_uuid_eq [OF u1 a1] option.map)
  finally show ?thesis
    unfolding r by (simp add: canbus_set_filter_def)
qed







section \<open>The claims on the admin protocol\<close>

text \<open>
  C1. A \<open>SET_CANID\<close> frame of at least 8 bytes that carries another chip's UUID and asks
  for the address this chip holds makes the chip give the address up: the assigned id
  becomes 0, the receive filter is set to 0, one \<open>NEED_CANID\<close> response with the address
  byte 0 goes out (after the \<open>k\<close> attempts the driver rejected), and the fatal shutdown
  follows, once, with its cause. The driver is taken to accept a send eventually.
\<close>

theorem set_canid_collision_evicts:
  assumes "8 \<le> len" and "8 \<le> length data"
    and "data ! 0 = CANBUS_CMD_SET_CANID"
    and "length (canbus_uuid s) = CANBUS_UUID_LEN"
    and "take CANBUS_UUID_LEN (drop 1 data) \<noteq> canbus_uuid s"
    and "can_decode_id (uint (data ! 7)) = canbus_assigned_id s"
    and "first_accept (hw_send_ret s) (hw_sends s) k"
  shows "\<exists>s'. can_process K cid len data s = Some (Halt s') \<and>
      s' = s\<lparr>canbus_assigned_id := 0,
             hw_sends := hw_sends s + Suc k,
             trace := trace s @ SetFilter 0 #
               send_attempts (hw_send_ret s) (hw_sends s) (CANBUS_ID_ADMIN_RESP K)
                 (CANBUS_RESP_NEED_CANID # canbus_uuid s @ [0]) (Suc k) @
               [Fatal ''Another CAN node assigned this ID'']\<rparr> \<and>
      canbus_assigned_id s' = 0 \<and>
      filters_set (trace s') = filters_set (trace s) @ [0] \<and>
      responses K (trace s') =
        responses K (trace s) @ [CANBUS_RESP_NEED_CANID # canbus_uuid s @ [0]] \<and>
      fatal_causes (trace s') =
        fatal_causes (trace s) @ [''Another CAN node assigned this ID'']"
proof -
  have "can_process K cid len data s = can_process_set_canid K cid len data s"
    using assms(1,3) by (rule set_canid_reached [rotated])
  then show ?thesis
    using assms(7)
    by (simp add: set_canid_collision [OF assms(1,4,5,6,7)] filters_set_append
        filters_set_attempts responses_append responses_attempts fatal_causes_append
        fatal_causes_attempts)
qed

theorem set_canid_collision_evicts_witness:
  "\<exists>s'. can_process example_ids 0x3f0 8 [2, 1, 2, 3, 4, 5, 6, 5]
          ((boot_state (\<lambda>n. if n = 0 then - 1 else 8))\<lparr>canbus_assigned_id := 0x10A\<rparr>)
        = Some (Halt s') \<and>
      canbus_assigned_id s' = 0 \<and>
      hw_sends s' = 2 \<and>
      filters_set (trace s') = [0] \<and>
      responses example_ids (trace s') = [[32, 0xA1, 0xA2, 0xA3, 0xA4, 0xA5, 0xA6, 0]] \<and>
      fatal_causes (trace s') = [''Another CAN node assigned this ID'']"
  using set_canid_collision_evicts
    [of 8 "[2, 1, 2, 3, 4, 5, 6, 5]"
      "(boot_state (\<lambda>n. if n = 0 then - 1 else 8))\<lparr>canbus_assigned_id := 0x10A\<rparr>"
      "Suc 0" example_ids "0x3f0"]
  by (simp add: boot_state_def example_ids_def CANBUS_CMD_SET_CANID_def CANBUS_UUID_LEN_def
      can_decode_id_def first_accept_def CANBUS_RESP_NEED_CANID_def)


text \<open>
  C2. A \<open>SET_CANID\<close> frame of at least 8 bytes that carries this chip's UUID: when the
  address decoded from byte 7 differs from the current one it is stored and handed to the
  receive filter; in every case one \<open>HAVE_CANID\<close> response goes out whose byte 7 is the
  byte of the request, the encoding of the address now held. The driver is taken to accept
  a send eventually (after \<open>k\<close> rejected attempts).
\<close>

theorem set_canid_match_assigns:
  assumes "8 \<le> len" and "8 \<le> length data"
    and "data ! 0 = CANBUS_CMD_SET_CANID"
    and "length (canbus_uuid s) = CANBUS_UUID_LEN"
    and "take CANBUS_UUID_LEN (drop 1 data) = canbus_uuid s"
    and "first_accept (hw_send_ret s) (hw_sends s) k"
  shows "\<exists>s'. can_process K cid len data s = Some (Continue s') \<and>
      s' = s\<lparr>canbus_assigned_id := can_decode_id (uint (data ! 7)),
             hw_sends := hw_sends s + Suc k,
             trace := trace s @
               (if can_decode_id (uint (data ! 7)) \<noteq> canbus_assigned_id s
                then [SetFilter (can_decode_id (uint (data ! 7)))] else []) @
               send_attempts (hw_send_ret s) (hw_sends s) (CANBUS_ID_ADMIN_RESP K)
                 (CANBUS_RESP_HAVE_CANID # canbus_uuid s @ [data ! 7]) (Suc k)\<rparr> \<and>
      canbus_assigned_id s' = can_decode_id (uint (data ! 7)) \<and>
      filters_set (trace s') = filters_set (trace s) @
        (if can_decode_id (uint (data ! 7)) \<noteq> canbus_assigned_id s
         then [can_decode_id (uint (data ! 7))] else []) \<and>
      responses K (trace s') =
        responses K (trace s) @ [CANBUS_RESP_HAVE_CANID # canbus_uuid s @ [data ! 7]] \<and>
      word_of_int (can_encode_id s') = data ! 7 \<and>
      fatal_causes (trace s') = fatal_causes (trace s)"
proof -
  define s' where "s' = s\<lparr>canbus_assigned_id := can_decode_id (uint (data ! 7)),
             hw_sends := hw_sends s + Suc k,
             trace := trace s @
               (if can_decode_id (uint (data ! 7)) \<noteq> canbus_assigned_id s
                then [SetFilter (can_decode_id (uint (data ! 7)))] else []) @
               send_attempts (hw_send_ret s) (hw_sends s) (CANBUS_ID_ADMIN_RESP K)
                 (CANBUS_RESP_HAVE_CANID # canbus_uuid s @ [data ! 7]) (Suc k)\<rparr>"
  have "can_process K cid len data s = can_process_set_canid K cid len data s"
    using assms(1,3) by (rule set_canid_reached [rotated])
  then have r: "can_process K cid len data s = Some (Continue s')"
    unfolding s'_def by (simp only: set_canid_match [OF assms(1,4,5,6)])
  have i: "canbus_assigned_id s' = can_decode_id (uint (data ! 7))"
    by (simp add: s'_def)
  have f: "filters_set (trace s') = filters_set (trace s) @
        (if can_decode_id (uint (data ! 7)) \<noteq> canbus_assigned_id s
         then [can_decode_id (uint (data ! 7))] else [])"
    by (simp add: s'_def filters_set_append filters_set_attempts)
  have p: "responses K (trace s') =
        responses K (trace s) @ [CANBUS_RESP_HAVE_CANID # canbus_uuid s @ [data ! 7]]"
    using assms(6) by (simp add: s'_def responses_append responses_attempts)
  have e: "word_of_int (can_encode_id s') = data ! 7"
    by (simp add: encode_of_decoded [OF i])
  have c: "fatal_causes (trace s') = fatal_causes (trace s)"
    by (simp add: s'_def fatal_causes_append fatal_causes_attempts)
  show ?thesis
    using r i f p e c unfolding s'_def by (intro exI [of _ s', unfolded s'_def] conjI) simp_all
qed

theorem set_canid_match_assigns_witness:
  "\<exists>s'. can_process example_ids 0x3f0 8 [2, 0xA1, 0xA2, 0xA3, 0xA4, 0xA5, 0xA6, 5]
          (boot_state (\<lambda>n. 8))
        = Some (Continue s') \<and>
      canbus_assigned_id s' = 0x10A \<and>
      hw_sends s' = 1 \<and>
      filters_set (trace s') = [0x10A] \<and>
      responses example_ids (trace s') = [[33, 0xA1, 0xA2, 0xA3, 0xA4, 0xA5, 0xA6, 5]] \<and>
      fatal_causes (trace s') = []"
proof -
  let ?d = "[2, 0xA1, 0xA2, 0xA3, 0xA4, 0xA5, 0xA6, 5] :: u8 list"
  let ?s = "boot_state (\<lambda>n. 8)"
  have h1: "(8 :: u32) \<le> 8" by simp
  have h2: "8 \<le> length ?d" by simp
  have h3: "?d ! 0 = CANBUS_CMD_SET_CANID" by (simp add: CANBUS_CMD_SET_CANID_def)
  have h4: "length (canbus_uuid ?s) = CANBUS_UUID_LEN"
    by (simp add: boot_state_def CANBUS_UUID_LEN_def)
  have h5: "take CANBUS_UUID_LEN (drop 1 ?d) = canbus_uuid ?s"
    by (simp add: boot_state_def CANBUS_UUID_LEN_def)
  have h6: "first_accept (hw_send_ret ?s) (hw_sends ?s) 0"
    by (simp add: boot_state_def first_accept_def)
  have d: "can_decode_id (uint (?d ! 7)) = 0x10A"
    by (simp add: can_decode_id_def)
  from set_canid_match_assigns [OF h1 h2 h3 h4 h5 h6, of example_ids "0x3f0"]
  obtain s' where s': "can_process example_ids 0x3f0 8 ?d ?s = Some (Continue s')"
    "canbus_assigned_id s' = can_decode_id (uint (?d ! 7))"
    "s' = ?s\<lparr>canbus_assigned_id := can_decode_id (uint (?d ! 7)),
             hw_sends := hw_sends ?s + Suc 0,
             trace := trace ?s @
               (if can_decode_id (uint (?d ! 7)) \<noteq> canbus_assigned_id ?s
                then [SetFilter (can_decode_id (uint (?d ! 7)))] else []) @
               send_attempts (hw_send_ret ?s) (hw_sends ?s) (CANBUS_ID_ADMIN_RESP example_ids)
                 (CANBUS_RESP_HAVE_CANID # canbus_uuid ?s @ [?d ! 7]) (Suc 0)\<rparr>"
    by blast
  have "trace s' = [SetFilter 0x10A, Send 0x3f1 [33, 0xA1, 0xA2, 0xA3, 0xA4, 0xA5, 0xA6, 5] 8]"
    unfolding s'(3) d
    by (simp add: boot_state_def example_ids_def send_attempts_def CANBUS_RESP_HAVE_CANID_def)
  moreover have "hw_sends s' = 1"
    unfolding s'(3) by (simp add: boot_state_def)
  ultimately show ?thesis
    using s'(1,2) d by (simp add: example_ids_def)
qed

section \<open>The claims on the encoded address\<close>

text \<open>
  C8, as the code has it. Decoding the encoding gives back every assignable address (the
  even identifiers from \<open>0x100\<close> to \<open>0x2FE\<close>), encoding the decoding gives back every
  byte, and decoding is a bijection from the 256 bytes onto the assignable addresses. The
  byte 0 is not set aside for "no address": it is what an unassigned chip reports, and it
  is also the encoding of the assignable address \<open>0x100\<close>.
\<close>

theorem encoded_address_bijection:
  "(\<forall>x. assignable x \<longrightarrow>
        can_decode_id (can_encode_id (s\<lparr>canbus_assigned_id := x\<rparr>)) = x \<and>
        0 \<le> can_encode_id (s\<lparr>canbus_assigned_id := x\<rparr>) \<and>
        can_encode_id (s\<lparr>canbus_assigned_id := x\<rparr>) < 256) \<and>
   (\<forall>e::u8. can_encode_id (s\<lparr>canbus_assigned_id := can_decode_id (uint e)\<rparr>) = uint e) \<and>
   bij_betw (\<lambda>e::u8. can_decode_id (uint e)) UNIV {x. assignable x} \<and>
   \<not> assignable 0 \<and>
   can_encode_id (s\<lparr>canbus_assigned_id := 0\<rparr>) = 0 \<and>
   assignable 0x100 \<and>
   can_encode_id (s\<lparr>canbus_assigned_id := 0x100\<rparr>) = 0"
proof -
  have a: "can_decode_id (can_encode_id (s\<lparr>canbus_assigned_id := x\<rparr>)) = x \<and>
        0 \<le> can_encode_id (s\<lparr>canbus_assigned_id := x\<rparr>) \<and>
        can_encode_id (s\<lparr>canbus_assigned_id := x\<rparr>) < 256" if ax: "assignable x" for x
  proof -
    obtain e :: u8 where e: "x = can_decode_id (uint e)"
      using ax assignable_iff_decode by blast
    have lt: "uint e < 256"
      using uint_lt2p [of e] by simp
    have enc: "can_encode_id (s\<lparr>canbus_assigned_id := x\<rparr>) = uint e"
      unfolding e by (rule encode_decode)
    have dec: "can_decode_id (can_encode_id (s\<lparr>canbus_assigned_id := x\<rparr>)) = x"
      by (rule decode_encode [OF ax])
    have ge: "0 \<le> uint e"
      by simp
    show ?thesis
      using dec lt ge by (simp only: enc)
  qed
  have z: "\<not> assignable 0"
    by (simp add: assignable_def)
  have h: "assignable 0x100"
    by (simp add: assignable_def)
  have d0: "can_decode_id (uint (0::u8)) = 0x100"
    by (simp add: can_decode_id_def)
  have e0: "can_encode_id (s\<lparr>canbus_assigned_id := 0x100\<rparr>) = 0"
    using encode_decode [where s = s and e = 0] unfolding d0 by simp
  have a': "\<forall>x. assignable x \<longrightarrow>
        can_decode_id (can_encode_id (s\<lparr>canbus_assigned_id := x\<rparr>)) = x \<and>
        0 \<le> can_encode_id (s\<lparr>canbus_assigned_id := x\<rparr>) \<and>
        can_encode_id (s\<lparr>canbus_assigned_id := x\<rparr>) < 256"
    by (intro allI impI a)
  have b: "\<forall>e::u8. can_encode_id (s\<lparr>canbus_assigned_id := can_decode_id (uint e)\<rparr>) = uint e"
    by (simp add: encode_decode)
  have u: "can_encode_id (s\<lparr>canbus_assigned_id := 0\<rparr>) = 0"
    by (simp add: can_encode_id_def)
  show ?thesis
    by (intro conjI a' b decode_bij z u h e0)
qed

theorem encoded_address_bijection_witness:
  "assignable 0x10A \<and>
   can_decode_id (can_encode_id ((boot_state (\<lambda>n. 8))\<lparr>canbus_assigned_id := 0x10A\<rparr>)) = 0x10A \<and>
   can_encode_id ((boot_state (\<lambda>n. 8))\<lparr>canbus_assigned_id := 0x10A\<rparr>) = 5"
proof -
  have a: "assignable 0x10A"
    by (simp add: assignable_def)
  have "can_decode_id (can_encode_id ((boot_state (\<lambda>n. 8))\<lparr>canbus_assigned_id := 0x10A\<rparr>)) = 0x10A"
    using encoded_address_bijection [of "boot_state (\<lambda>n. 8)", THEN conjunct1, rule_format, OF a]
    by simp
  moreover have "can_encode_id ((boot_state (\<lambda>n. 8))\<lparr>canbus_assigned_id := 0x10A\<rparr>) = 5"
    by (simp add: can_encode_id_def drop_bit_eq_div)
  ultimately show ?thesis
    using a by simp
qed

text \<open>
  C8 as it is written fails: the encoded value 0 is not kept for "no address assigned". The
  address \<open>0x100\<close> is assignable (it is what the byte 0 decodes to), it differs from the
  unassigned 0, and both are encoded as 0.
\<close>

theorem encoded_zero_not_reserved:
  "can_decode_id 0 = 0x100 \<and> assignable 0x100 \<and> (0x100 :: u32) \<noteq> 0 \<and>
   can_encode_id ((boot_state (\<lambda>n. 8))\<lparr>canbus_assigned_id := 0x100\<rparr>) = 0 \<and>
   can_encode_id ((boot_state (\<lambda>n. 8))\<lparr>canbus_assigned_id := 0\<rparr>) = 0"
  by (simp add: can_decode_id_def assignable_def can_encode_id_def)




section \<open>Lemmas on the transmit buffer\<close>

lemma unat_ucast_max:
  fixes m :: "'w::len word"
  assumes "LENGTH('w) < 32"
  shows "unat (ucast m :: u32) = unat m" and "unat m < 2 ^ 31"
proof -
  have "unat m < 2 ^ LENGTH('w)"
    by (rule unsigned_less)
  moreover have "(2::nat) ^ LENGTH('w) \<le> 2 ^ 31"
    using assms by (intro power_increasing) simp_all
  ultimately show b: "unat m < 2 ^ 31"
    by (rule less_le_trans)
  then show "unat (ucast m :: u32) = unat m"
    by (simp add: unsigned_ucast_eq take_bit_nat_eq_self)
qed

lemma sum_no_wrap:
  fixes a b :: u32
  assumes "unat a \<le> 255" and "unat b < 2 ^ 31"
  shows "unat (a + b) = unat a + unat b"
  using assms by (simp add: unat_word_ariths)

lemma ucast_u32_u8:
  fixes x :: u32
  assumes "unat x = k"
  shows "(ucast x :: u8) = of_nat k"
proof -
  have "unat (ucast x :: u8) = unat (of_nat k :: u8)"
    using assms by (simp add: unsigned_ucast_eq unsigned_of_nat)
  then show ?thesis
    by (simp only: word_unat_eq_iff)
qed

lemma u32_of_nat:
  fixes x :: u32
  assumes "unat x = k"
  shows "x = of_nat k"
  using assms by (metis of_nat_unat ucast_id)

text \<open>The cursors as numbers.\<close>

lemma sendf_words:
  fixes ce_max_size :: "'w::len word"
  assumes w: "LENGTH('w) < 32"
  shows "(ucast (transmit_max s) :: u32) \<le> ucast (transmit_pos s)
           \<longleftrightarrow> unat (transmit_max s) \<le> unat (transmit_pos s)"
    and "(96 :: u32) < ucast (transmit_max s) + ucast ce_max_size
           \<longleftrightarrow> 96 < unat (transmit_max s) + unat ce_max_size"
    and "(96 :: u32) < 0 + ucast ce_max_size \<longleftrightarrow> 96 < unat ce_max_size"
    and "unat (transmit_pos s) \<le> unat (transmit_max s) \<Longrightarrow>
         (96 :: u32) < ucast (transmit_max s) + ucast ce_max_size - ucast (transmit_pos s)
           \<longleftrightarrow> 96 < unat (transmit_max s) + unat ce_max_size - unat (transmit_pos s)"
    and "unat (transmit_pos s) \<le> unat (transmit_max s) \<Longrightarrow>
         unat (ucast (transmit_max s) - ucast (transmit_pos s) :: u32)
           = unat (transmit_max s) - unat (transmit_pos s)"
proof -
  let ?p = "ucast (transmit_pos s) :: u32" and ?l = "ucast (transmit_max s) :: u32"
  let ?m = "ucast ce_max_size :: u32"
  have m: "unat ?m = unat ce_max_size" "unat ce_max_size < 2 ^ 31"
    using unat_ucast_max [OF w, of ce_max_size] by simp_all
  have l: "unat ?l \<le> 255"
    using unat_u8_bound [of "transmit_max s"] by simp
  have lm: "unat (?l + ?m) = unat (transmit_max s) + unat ce_max_size"
    using sum_no_wrap [OF l, of ?m] m by simp
  show "?l \<le> ?p \<longleftrightarrow> unat (transmit_max s) \<le> unat (transmit_pos s)"
    by (simp add: word_le_nat_alt)
  show "96 < ?l + ?m \<longleftrightarrow> 96 < unat (transmit_max s) + unat ce_max_size"
    by (simp add: word_less_nat_alt lm)
  show "96 < 0 + ?m \<longleftrightarrow> 96 < unat ce_max_size"
    by (simp add: word_less_nat_alt m)
  show "96 < ?l + ?m - ?p
      \<longleftrightarrow> 96 < unat (transmit_max s) + unat ce_max_size - unat (transmit_pos s)"
    if pl: "unat (transmit_pos s) \<le> unat (transmit_max s)"
  proof -
    have "?p \<le> ?l + ?m"
      using pl by (simp add: word_le_nat_alt lm)
    then have "unat (?l + ?m - ?p) = unat (?l + ?m) - unat ?p"
      by (rule unat_sub)
    then show ?thesis
      by (simp add: word_less_nat_alt lm)
  qed
  show "unat (?l - ?p) = unat (transmit_max s) - unat (transmit_pos s)"
    if pl: "unat (transmit_pos s) \<le> unat (transmit_max s)"
  proof -
    have "?p \<le> ?l"
      using pl by (simp add: word_le_nat_alt)
    then have "unat (?l - ?p) = unat ?l - unat ?p"
      by (rule unat_sub)
    then show ?thesis by simp
  qed
qed

lemma sendf_dropped:
  fixes ce_max_size :: "'w::len word"
  assumes w: "LENGTH('w) < 32"
    and full: "96 < unat (transmit_max s) - unat (transmit_pos s) + unat ce_max_size"
  shows "console_sendf ce_max_size msg s =
     (if unat (transmit_max s) \<le> unat (transmit_pos s)
      then s\<lparr>transmit_pos := 0, transmit_max := 0\<rparr> else s)"
proof (cases "unat (transmit_max s) \<le> unat (transmit_pos s)")
  case True
  then have "96 < unat ce_max_size"
    using full by simp
  then have "(96 :: u32) < ucast ce_max_size"
    using sendf_words(3) [OF w, of ce_max_size] by simp
  then show ?thesis
    unfolding console_sendf_def Let_def using True
    by (simp add: sendf_words(1) [OF w])
next
  case False
  then have pl: "unat (transmit_pos s) \<le> unat (transmit_max s)"
    by simp
  have "96 < unat (transmit_max s) + unat ce_max_size"
    using full by simp
  moreover have "96 < unat (transmit_max s) + unat ce_max_size - unat (transmit_pos s)"
    using full pl by simp
  ultimately show ?thesis
    unfolding console_sendf_def Let_def using False
    by (simp add: sendf_words(1,2) [OF w] sendf_words(4) [OF w pl])
qed

lemma limit_after:
  fixes x :: u32
  assumes "unat x = n"
  shows "(ucast (x + of_nat k) :: u8) = of_nat (n + k)"
proof -
  have "unat (x + of_nat k) = (n + k) mod 2 ^ 32"
    using assms by (simp add: unat_word_ariths unat_of_nat mod_simps)
  then have "(ucast (x + of_nat k) :: u8) = of_nat ((n + k) mod 2 ^ 32)"
    by (rule ucast_u32_u8)
  also have "\<dots> = of_nat (n + k)"
    by (simp only: word_unat_eq_iff unat_of_nat) (simp add: mod_mod_cancel)
  finally show ?thesis .
qed

lemma sendf_appended:
  fixes ce_max_size :: "'w::len word"
  assumes w: "LENGTH('w) < 32"
    and pl: "unat (transmit_pos s) < unat (transmit_max s)"
    and room: "unat (transmit_max s) + unat ce_max_size \<le> 96"
  shows "console_sendf ce_max_size msg s =
     canbus_notify_tx
       (s\<lparr>transmit_buf :=
            memcpy_at (transmit_buf s) (unat (transmit_max s)) msg (length msg),
          transmit_max := of_nat (unat (transmit_max s) + length msg)\<rparr>)"
proof -
  have a: "\<not> unat (transmit_max s) \<le> unat (transmit_pos s)"
    using pl by simp
  have b: "\<not> 96 < unat (transmit_max s) + unat ce_max_size"
    using room by simp
  have c: "(ucast (ucast (transmit_max s) + of_nat (length msg) :: u32) :: u8)
      = of_nat (unat (transmit_max s) + length msg)"
    by (rule limit_after) simp
  show ?thesis
    unfolding console_sendf_def Let_def command_encode_and_frame_def using a b
    by (simp add: sendf_words(1,2) [OF w] c)
qed

lemma sendf_reset:
  fixes ce_max_size :: "'w::len word"
  assumes w: "LENGTH('w) < 32"
    and drained: "unat (transmit_max s) \<le> unat (transmit_pos s)"
    and room: "unat ce_max_size \<le> 96"
  shows "console_sendf ce_max_size msg s =
     canbus_notify_tx
       (s\<lparr>transmit_pos := 0,
          transmit_buf := memcpy_at (transmit_buf s) 0 msg (length msg),
          transmit_max := of_nat (length msg)\<rparr>)"
proof -
  have b: "\<not> (96 :: u32) < ucast ce_max_size"
    using room sendf_words(3) [OF w, of ce_max_size] by simp
  have c: "(ucast (of_nat (length msg) :: u32) :: u8) = of_nat (length msg)"
    using limit_after [of 0 0 "length msg"] by simp
  show ?thesis
    unfolding console_sendf_def Let_def command_encode_and_frame_def using drained b
    by (simp add: sendf_words(1) [OF w] c)
qed

lemma sendf_moved:
  fixes ce_max_size :: "'w::len word"
  assumes w: "LENGTH('w) < 32"
    and pl: "unat (transmit_pos s) < unat (transmit_max s)"
    and tight: "96 < unat (transmit_max s) + unat ce_max_size"
    and room: "unat (transmit_max s) - unat (transmit_pos s) + unat ce_max_size \<le> 96"
  shows "console_sendf ce_max_size msg s =
     canbus_notify_tx
       (s\<lparr>transmit_pos := 0,
          transmit_buf :=
            memcpy_at
              (memcpy_at (transmit_buf s) 0 (drop (unat (transmit_pos s)) (transmit_buf s))
                 (unat (transmit_max s) - unat (transmit_pos s)))
              (unat (transmit_max s) - unat (transmit_pos s)) msg (length msg),
          transmit_max := of_nat (unat (transmit_max s) - unat (transmit_pos s) + length msg)\<rparr>)"
proof -
  let ?p = "ucast (transmit_pos s) :: u32" and ?l = "ucast (transmit_max s) :: u32"
  have a: "\<not> unat (transmit_max s) \<le> unat (transmit_pos s)"
    using pl by simp
  have pl': "unat (transmit_pos s) \<le> unat (transmit_max s)"
    using pl by simp
  have b: "\<not> 96 < unat (transmit_max s) + unat ce_max_size - unat (transmit_pos s)"
    using room pl by simp
  have d: "unat (?l - ?p) = unat (transmit_max s) - unat (transmit_pos s)"
    by (rule sendf_words(5) [OF w pl'])
  have c: "(ucast (?l - ?p + of_nat (length msg)) :: u8)
      = of_nat (unat (transmit_max s) - unat (transmit_pos s) + length msg)"
    by (rule limit_after [OF d])
  show ?thesis
    unfolding console_sendf_def Let_def command_encode_and_frame_def using a b tight
    by (simp add: sendf_words(1,2) [OF w] sendf_words(4) [OF w pl'] c d)
qed


lemma memcpy_at_length:
  "off + n \<le> length dst \<Longrightarrow> n \<le> length src \<Longrightarrow> length (memcpy_at dst off src n) = length dst"
  by (simp add: memcpy_at_def)

lemma unat_of_nat_u8: "k < 256 \<Longrightarrow> unat (of_nat k :: u8) = k"
  by (simp add: unat_of_nat)

lemma length_unsent: "tx_inv s \<Longrightarrow> length (unsent s) = unat (transmit_max s) - unat (transmit_pos s)"
  by (auto simp add: tx_inv_def unsent_def)

lemma unsent_drained: "unat (transmit_max s) \<le> unat (transmit_pos s) \<Longrightarrow> unsent s = []"
  by (simp add: unsent_def)

lemma sendf_appended_effect:
  fixes ce_max_size :: "'w::len word"
  assumes w: "LENGTH('w) < 32" and inv: "tx_inv s"
    and pl: "unat (transmit_pos s) < unat (transmit_max s)"
    and room: "unat (transmit_max s) + unat ce_max_size \<le> 96"
    and enc: "length msg \<le> unat ce_max_size"
  shows "tx_inv (console_sendf ce_max_size msg s)"
    and "unsent (console_sendf ce_max_size msg s) = unsent s @ msg"
proof -
  let ?p = "unat (transmit_pos s)" and ?l = "unat (transmit_max s)"
  let ?s' = "console_sendf ce_max_size msg s"
  have fit: "?l + length msg \<le> 96"
    using room enc by simp
  have len: "length (transmit_buf s) = 96"
    using inv by (simp add: tx_inv_def)
  have l': "unat (of_nat (?l + length msg) :: u8) = ?l + length msg"
    using fit by (intro unat_of_nat_u8) simp
  have eq: "?s' = canbus_notify_tx
       (s\<lparr>transmit_buf := memcpy_at (transmit_buf s) ?l msg (length msg),
          transmit_max := of_nat (?l + length msg)\<rparr>)"
    by (rule sendf_appended [OF w pl room])
  show "tx_inv ?s'"
    unfolding eq using pl fit len l'
    by (simp add: tx_inv_def canbus_notify_tx_def sched_wake_task_def memcpy_at_length)
  show "unsent ?s' = unsent s @ msg"
    unfolding eq using pl fit len l'
    by (simp add: unsent_def canbus_notify_tx_def sched_wake_task_def memcpy_at_def drop_take)
qed


lemma sendf_reset_effect:
  fixes ce_max_size :: "'w::len word"
  assumes w: "LENGTH('w) < 32" and len: "length (transmit_buf s) = 96"
    and drained: "unat (transmit_max s) \<le> unat (transmit_pos s)"
    and room: "unat ce_max_size \<le> 96"
    and enc: "length msg \<le> unat ce_max_size"
  shows "tx_inv (console_sendf ce_max_size msg s)"
    and "unsent (console_sendf ce_max_size msg s) = msg"
proof -
  let ?s' = "console_sendf ce_max_size msg s"
  have fit: "length msg \<le> 96"
    using room enc by simp
  have l': "unat (of_nat (length msg) :: u8) = length msg"
    using fit by (intro unat_of_nat_u8) simp
  have eq: "?s' = canbus_notify_tx
       (s\<lparr>transmit_pos := 0,
          transmit_buf := memcpy_at (transmit_buf s) 0 msg (length msg),
          transmit_max := of_nat (length msg)\<rparr>)"
    by (rule sendf_reset [OF w drained room])
  show "tx_inv ?s'"
    unfolding eq using fit len l'
    by (simp add: tx_inv_def canbus_notify_tx_def sched_wake_task_def memcpy_at_length)
  show "unsent ?s' = msg"
    unfolding eq using fit len l'
    by (simp add: unsent_def canbus_notify_tx_def sched_wake_task_def memcpy_at_def)
qed

lemma sendf_moved_effect:
  fixes ce_max_size :: "'w::len word"
  assumes w: "LENGTH('w) < 32" and inv: "tx_inv s"
    and pl: "unat (transmit_pos s) < unat (transmit_max s)"
    and tight: "96 < unat (transmit_max s) + unat ce_max_size"
    and room: "unat (transmit_max s) - unat (transmit_pos s) + unat ce_max_size \<le> 96"
    and enc: "length msg \<le> unat ce_max_size"
  shows "tx_inv (console_sendf ce_max_size msg s)"
    and "unsent (console_sendf ce_max_size msg s) = unsent s @ msg"
    and "transmit_pos (console_sendf ce_max_size msg s) = 0"
proof -
  let ?p = "unat (transmit_pos s)" and ?l = "unat (transmit_max s)"
  let ?s' = "console_sendf ce_max_size msg s"
  let ?b1 = "memcpy_at (transmit_buf s) 0 (drop ?p (transmit_buf s)) (?l - ?p)"
  have fit: "?l - ?p + length msg \<le> 96"
    using room enc by simp
  have len: "length (transmit_buf s) = 96" and l96: "?l \<le> 96"
    using inv by (simp_all add: tx_inv_def)
  have l': "unat (of_nat (?l - ?p + length msg) :: u8) = ?l - ?p + length msg"
    using fit by (intro unat_of_nat_u8) simp
  have b1: "?b1 = unsent s @ drop (?l - ?p) (transmit_buf s)"
    by (simp add: memcpy_at_def unsent_def)
  have lu: "length (unsent s) = ?l - ?p"
    by (rule length_unsent [OF inv])
  have b1len: "length ?b1 = 96"
    using pl l96 len by (intro trans [OF memcpy_at_length len]) simp_all
  have eq: "?s' = canbus_notify_tx
       (s\<lparr>transmit_pos := 0,
          transmit_buf := memcpy_at ?b1 (?l - ?p) msg (length msg),
          transmit_max := of_nat (?l - ?p + length msg)\<rparr>)"
    by (rule sendf_moved [OF w pl tight room])
  show "tx_inv ?s'"
    unfolding eq using fit b1len l'
    by (simp add: tx_inv_def canbus_notify_tx_def sched_wake_task_def memcpy_at_length)
  have f: "transmit_pos ?s' = 0" "transmit_max ?s' = of_nat (?l - ?p + length msg)"
    "transmit_buf ?s' = memcpy_at ?b1 (?l - ?p) msg (length msg)"
    unfolding eq by (simp_all add: canbus_notify_tx_def sched_wake_task_def)
  have "take (?l - ?p + length msg) (memcpy_at ?b1 (?l - ?p) msg (length msg)) = unsent s @ msg"
    unfolding b1 using lu by (simp add: memcpy_at_def)
  moreover have "unat (transmit_max ?s') = ?l - ?p + length msg"
    unfolding f(2) by (rule l')
  ultimately show "unsent ?s' = unsent s @ msg"
    by (simp add: unsent_def [of ?s'] f(1,3))
  show "transmit_pos ?s' = 0"
    by (rule f(1))
qed


lemma sendf_dropped_effect:
  fixes ce_max_size :: "'w::len word"
  assumes w: "LENGTH('w) < 32"
    and full: "96 < unat (transmit_max s) - unat (transmit_pos s) + unat ce_max_size"
  shows "transmit_buf (console_sendf ce_max_size msg s) = transmit_buf s"
    and "unat (transmit_max (console_sendf ce_max_size msg s)) \<le> unat (transmit_max s)"
    and "unsent (console_sendf ce_max_size msg s) = unsent s"
    and "trace (console_sendf ce_max_size msg s) = trace s"
    and "canbus_tx_wake (console_sendf ce_max_size msg s) = canbus_tx_wake s"
    and "tx_inv s \<Longrightarrow> tx_inv (console_sendf ce_max_size msg s)"
  unfolding sendf_dropped [OF w full]
  by (simp_all add: unsent_def tx_inv_def)

lemma sendf_preserves_inv:
  fixes ce_max_size :: "'w::len word"
  assumes w: "LENGTH('w) < 32" and inv: "tx_inv s"
    and enc: "length msg \<le> unat ce_max_size"
  shows "tx_inv (console_sendf ce_max_size msg s)"
proof (cases "96 < unat (transmit_max s) - unat (transmit_pos s) + unat ce_max_size")
  case True
  then show ?thesis
    by (rule sendf_dropped_effect(6) [OF w _ inv])
next
  case room: False
  show ?thesis
  proof (cases "unat (transmit_pos s) < unat (transmit_max s)")
    case pl: True
    show ?thesis
    proof (cases "96 < unat (transmit_max s) + unat ce_max_size")
      case True
      then show ?thesis
        using room by (intro sendf_moved_effect(1) [OF w inv pl _ _ enc]) simp_all
    next
      case False
      then show ?thesis
        by (intro sendf_appended_effect(1) [OF w inv pl _ enc]) simp
    qed
  next
    case False
    then have d: "unat (transmit_max s) \<le> unat (transmit_pos s)"
      by simp
    have "length (transmit_buf s) = 96"
      using inv by (simp add: tx_inv_def)
    then show ?thesis
      using room d by (intro sendf_reset_effect(1) [OF w _ d _ enc]) simp_all
  qed
qed

lemma sendf_unsent:
  fixes ce_max_size :: "'w::len word"
  assumes w: "LENGTH('w) < 32" and inv: "tx_inv s"
    and enc: "length msg \<le> unat ce_max_size"
  shows "unsent (console_sendf ce_max_size msg s) =
     (if 96 < length (unsent s) + unat ce_max_size then unsent s else unsent s @ msg)"
proof (cases "96 < unat (transmit_max s) - unat (transmit_pos s) + unat ce_max_size")
  case True
  then show ?thesis
    using sendf_dropped_effect(3) [OF w True] by (simp add: length_unsent [OF inv])
next
  case room: False
  then have nf: "\<not> 96 < length (unsent s) + unat ce_max_size"
    by (simp add: length_unsent [OF inv])
  show ?thesis
  proof (cases "unat (transmit_pos s) < unat (transmit_max s)")
    case pl: True
    show ?thesis
    proof (cases "96 < unat (transmit_max s) + unat ce_max_size")
      case True
      have "unsent (console_sendf ce_max_size msg s) = unsent s @ msg"
        using room True by (intro sendf_moved_effect(2) [OF w inv pl _ _ enc]) simp_all
      then show ?thesis
        using nf by simp
    next
      case False
      have "unsent (console_sendf ce_max_size msg s) = unsent s @ msg"
        using False by (intro sendf_appended_effect(2) [OF w inv pl _ enc]) simp
      then show ?thesis
        using nf by simp
    qed
  next
    case False
    then have d: "unat (transmit_max s) \<le> unat (transmit_pos s)"
      by simp
    have "length (transmit_buf s) = 96"
      using inv by (simp add: tx_inv_def)
    then have "unsent (console_sendf ce_max_size msg s) = msg"
      using room d by (intro sendf_reset_effect(2) [OF w _ d _ enc]) simp_all
    then show ?thesis
      using nf unsent_drained [OF d] by simp
  qed
qed

lemma sendf_frame:
  fixes ce_max_size :: "'w::len word"
  shows "canbus_assigned_id (console_sendf ce_max_size msg s) = canbus_assigned_id s"
    and "hw_send_ret (console_sendf ce_max_size msg s) = hw_send_ret s"
    and "hw_sends (console_sendf ce_max_size msg s) = hw_sends s"
    and "trace (console_sendf ce_max_size msg s) = trace s \<or>
         trace (console_sendf ce_max_size msg s) = trace s @ [WakeTask TX]"
  unfolding console_sendf_def Let_def command_encode_and_frame_def canbus_notify_tx_def
    sched_wake_task_def
  by (simp_all split: prod.splits)

section \<open>The claims on the enqueue\<close>

text \<open>
  C4. When the unsent bytes and the declared maximum size together exceed the 96 bytes of
  the transmit buffer, \<open>console_sendf\<close> returns without encoding: the buffer is as it was,
  the limit has not grown, the unsent bytes are the same, the transmit task is not woken
  and nothing is reported (the function returns only the state; at most the two cursors of
  an already drained buffer are set back to 0). The field \<open>max_size\<close> is narrower than 32
  bits, so that the 32-bit sums of the code do not wrap.
\<close>

theorem sendf_full_drops_message:
  fixes ce_max_size :: "'w::len word"
  assumes "LENGTH('w) < 32"
    and "96 < unat (transmit_max s) - unat (transmit_pos s) + unat ce_max_size"
  shows "console_sendf ce_max_size msg s =
           (if unat (transmit_max s) \<le> unat (transmit_pos s)
            then s\<lparr>transmit_pos := 0, transmit_max := 0\<rparr> else s) \<and>
         transmit_buf (console_sendf ce_max_size msg s) = transmit_buf s \<and>
         unat (transmit_max (console_sendf ce_max_size msg s)) \<le> unat (transmit_max s) \<and>
         unsent (console_sendf ce_max_size msg s) = unsent s \<and>
         trace (console_sendf ce_max_size msg s) = trace s \<and>
         canbus_tx_wake (console_sendf ce_max_size msg s) = canbus_tx_wake s"
  using sendf_dropped [OF assms] sendf_dropped_effect(1-5) [OF assms]
  by (intro conjI)

theorem sendf_full_drops_message_witness:
  "console_sendf (40 :: u8) [1, 2, 3]
     ((boot_state (\<lambda>n. 8))\<lparr>transmit_pos := 10, transmit_max := 70\<rparr>)
     = (boot_state (\<lambda>n. 8))\<lparr>transmit_pos := 10, transmit_max := 70\<rparr> \<and>
   console_sendf (97 :: u8) [1, 2, 3]
     ((boot_state (\<lambda>n. 8))\<lparr>transmit_pos := 70, transmit_max := 70\<rparr>)
     = (boot_state (\<lambda>n. 8))\<lparr>transmit_pos := 0, transmit_max := 0\<rparr>"
proof -
  let ?s = "(boot_state (\<lambda>n. 8))\<lparr>transmit_pos := 10, transmit_max := 70\<rparr>"
  let ?t = "(boot_state (\<lambda>n. 8))\<lparr>transmit_pos := 70, transmit_max := 70\<rparr>"
  have w: "LENGTH(8) < 32"
    by simp
  have a: "96 < unat (transmit_max ?s) - unat (transmit_pos ?s) + unat (40 :: u8)"
    by simp
  have b: "96 < unat (transmit_max ?t) - unat (transmit_pos ?t) + unat (97 :: u8)"
    by simp
  have "console_sendf (40 :: u8) [1, 2, 3] ?s = ?s"
    using sendf_full_drops_message [OF w a, of "[1, 2, 3]", THEN conjunct1] by simp
  moreover have "console_sendf (97 :: u8) [1, 2, 3] ?t
      = (boot_state (\<lambda>n. 8))\<lparr>transmit_pos := 0, transmit_max := 0\<rparr>"
    using sendf_full_drops_message [OF w b, of "[1, 2, 3]", THEN conjunct1] by simp
  ultimately show ?thesis
    by (rule conjI)
qed

text \<open>
  C5. An enqueue that finds \<open>position = limit\<close> starts from both cursors at 0: either the
  message is dropped (its declared size exceeds the whole buffer) and the cursors stay at
  0, or it is encoded at offset 0 and the limit is its length. An enqueue whose declared
  size does not fit after the limit but fits once the unsent bytes are moved down moves
  them to offset 0, sets position to 0, and encodes the message right behind them, the
  limit being the unsent count plus the encoded length. (A buffer within its invariant and
  an encoder within its declared size give the readable form: the unsent bytes are the old
  ones followed by the message.)
\<close>

theorem sendf_resets_and_compacts:
  fixes ce_max_size :: "'w::len word"
  assumes "LENGTH('w) < 32"
  shows "(unat (transmit_pos s) = unat (transmit_max s) \<longrightarrow>
            console_sendf ce_max_size msg s =
              (if 96 < unat ce_max_size then s\<lparr>transmit_pos := 0, transmit_max := 0\<rparr>
               else canbus_notify_tx
                 (s\<lparr>transmit_pos := 0,
                    transmit_buf := memcpy_at (transmit_buf s) 0 msg (length msg),
                    transmit_max := of_nat (length msg)\<rparr>))) \<and>
         (unat (transmit_pos s) < unat (transmit_max s) \<and>
          96 < unat (transmit_max s) + unat ce_max_size \<and>
          unat (transmit_max s) - unat (transmit_pos s) + unat ce_max_size \<le> 96 \<longrightarrow>
            console_sendf ce_max_size msg s =
              canbus_notify_tx
                (s\<lparr>transmit_pos := 0,
                   transmit_buf :=
                     memcpy_at
                       (memcpy_at (transmit_buf s) 0
                          (drop (unat (transmit_pos s)) (transmit_buf s))
                          (unat (transmit_max s) - unat (transmit_pos s)))
                       (unat (transmit_max s) - unat (transmit_pos s)) msg (length msg),
                   transmit_max :=
                     of_nat (unat (transmit_max s) - unat (transmit_pos s) + length msg)\<rparr>) \<and>
            (tx_inv s \<and> length msg \<le> unat ce_max_size \<longrightarrow>
               transmit_pos (console_sendf ce_max_size msg s) = 0 \<and>
               unat (transmit_max (console_sendf ce_max_size msg s))
                 = length (unsent s) + length msg \<and>
               take (length (unsent s) + length msg)
                 (transmit_buf (console_sendf ce_max_size msg s)) = unsent s @ msg \<and>
               unsent (console_sendf ce_max_size msg s) = unsent s @ msg \<and>
               tx_inv (console_sendf ce_max_size msg s)))"
proof -
  let ?s' = "console_sendf ce_max_size msg s"
  have p1: "?s' =
      (if 96 < unat ce_max_size then s\<lparr>transmit_pos := 0, transmit_max := 0\<rparr>
       else canbus_notify_tx
         (s\<lparr>transmit_pos := 0,
            transmit_buf := memcpy_at (transmit_buf s) 0 msg (length msg),
            transmit_max := of_nat (length msg)\<rparr>))"
    if e: "unat (transmit_pos s) = unat (transmit_max s)"
  proof (cases "96 < unat ce_max_size")
    case True
    then have "96 < unat (transmit_max s) - unat (transmit_pos s) + unat ce_max_size"
      using e by simp
    from sendf_dropped [OF assms this] show ?thesis
      using True e by simp
  next
    case False
    then show ?thesis
      using e by (simp add: sendf_reset [OF assms])
  qed
  have p2: "?s' =
      canbus_notify_tx
        (s\<lparr>transmit_pos := 0,
           transmit_buf :=
             memcpy_at
               (memcpy_at (transmit_buf s) 0
                  (drop (unat (transmit_pos s)) (transmit_buf s))
                  (unat (transmit_max s) - unat (transmit_pos s)))
               (unat (transmit_max s) - unat (transmit_pos s)) msg (length msg),
           transmit_max :=
             of_nat (unat (transmit_max s) - unat (transmit_pos s) + length msg)\<rparr>)"
    if h: "unat (transmit_pos s) < unat (transmit_max s) \<and>
          96 < unat (transmit_max s) + unat ce_max_size \<and>
          unat (transmit_max s) - unat (transmit_pos s) + unat ce_max_size \<le> 96"
  proof -
    have pl: "unat (transmit_pos s) < unat (transmit_max s)"
      and tight: "96 < unat (transmit_max s) + unat ce_max_size"
      and room: "unat (transmit_max s) - unat (transmit_pos s) + unat ce_max_size \<le> 96"
      using h by blast+
    show ?thesis
      by (rule sendf_moved [OF assms pl tight room])
  qed
  have p3: "transmit_pos ?s' = 0 \<and>
       unat (transmit_max ?s') = length (unsent s) + length msg \<and>
       take (length (unsent s) + length msg) (transmit_buf ?s') = unsent s @ msg \<and>
       unsent ?s' = unsent s @ msg \<and> tx_inv ?s'"
    if h: "unat (transmit_pos s) < unat (transmit_max s) \<and>
          96 < unat (transmit_max s) + unat ce_max_size \<and>
          unat (transmit_max s) - unat (transmit_pos s) + unat ce_max_size \<le> 96"
      and g: "tx_inv s \<and> length msg \<le> unat ce_max_size"
  proof -
    have pl: "unat (transmit_pos s) < unat (transmit_max s)"
      and tight: "96 < unat (transmit_max s) + unat ce_max_size"
      and room: "unat (transmit_max s) - unat (transmit_pos s) + unat ce_max_size \<le> 96"
      and inv: "tx_inv s" and enc: "length msg \<le> unat ce_max_size"
      using h g by blast+
    note eff = sendf_moved_effect [OF assms inv pl tight room enc]
    have "length (unsent ?s') = unat (transmit_max ?s') - unat (transmit_pos ?s')"
      by (rule length_unsent [OF eff(1)])
    then have lim: "unat (transmit_max ?s') = length (unsent s) + length msg"
      unfolding eff(2) eff(3) by simp
    have "take (length (unsent s) + length msg) (transmit_buf ?s') = unsent ?s'"
      using lim eff(3) by (simp add: unsent_def [of ?s'])
    then show ?thesis
      using eff lim by simp
  qed
  show ?thesis
    by (rule conjI, rule impI, erule p1, rule impI, rule conjI, erule p2, rule impI,
        erule (1) p3)
qed


theorem sendf_resets_and_compacts_witness:
  "unsent (console_sendf (10 :: u8) [1, 2, 3]
     ((boot_state (\<lambda>n. 8))\<lparr>transmit_buf := replicate 94 0 @ [7, 9],
        transmit_pos := 94, transmit_max := 96\<rparr>)) = [7, 9, 1, 2, 3] \<and>
   transmit_pos (console_sendf (10 :: u8) [1, 2, 3]
     ((boot_state (\<lambda>n. 8))\<lparr>transmit_buf := replicate 94 0 @ [7, 9],
        transmit_pos := 94, transmit_max := 96\<rparr>)) = 0 \<and>
   unat (transmit_max (console_sendf (10 :: u8) [1, 2, 3]
     ((boot_state (\<lambda>n. 8))\<lparr>transmit_buf := replicate 94 0 @ [7, 9],
        transmit_pos := 94, transmit_max := 96\<rparr>))) = 5 \<and>
   unsent (console_sendf (10 :: u8) [1, 2, 3]
     ((boot_state (\<lambda>n. 8))\<lparr>transmit_pos := 70, transmit_max := 70\<rparr>)) = [1, 2, 3] \<and>
   transmit_pos (console_sendf (10 :: u8) [1, 2, 3]
     ((boot_state (\<lambda>n. 8))\<lparr>transmit_pos := 70, transmit_max := 70\<rparr>)) = 0"
proof -
  let ?s = "(boot_state (\<lambda>n. 8))\<lparr>transmit_buf := replicate 94 0 @ [7, 9],
        transmit_pos := 94, transmit_max := 96\<rparr>"
  let ?t = "(boot_state (\<lambda>n. 8))\<lparr>transmit_pos := 70, transmit_max := 70\<rparr>"
  have w: "LENGTH(8) < 32"
    by simp
  note th = sendf_resets_and_compacts [OF w, where ce_max_size = "10 :: u8" and msg = "[1, 2, 3]"]
  have h: "unat (transmit_pos ?s) < unat (transmit_max ?s) \<and>
      96 < unat (transmit_max ?s) + unat (10 :: u8) \<and>
      unat (transmit_max ?s) - unat (transmit_pos ?s) + unat (10 :: u8) \<le> 96"
    by simp
  have g: "tx_inv ?s \<and> length [1, 2, 3 :: u8] \<le> unat (10 :: u8)"
    by (simp add: tx_inv_def)
  have u: "unsent ?s = [7, 9]"
    by (simp add: unsent_def)
  have a: "unsent (console_sendf (10 :: u8) [1, 2, 3] ?s) = [7, 9, 1, 2, 3] \<and>
      transmit_pos (console_sendf (10 :: u8) [1, 2, 3] ?s) = 0 \<and>
      unat (transmit_max (console_sendf (10 :: u8) [1, 2, 3] ?s)) = 5"
    using th [where s = ?s, THEN conjunct2, rule_format, OF h, THEN conjunct2, rule_format, OF g]
    unfolding u by simp
  have e: "unat (transmit_pos ?t) = unat (transmit_max ?t)"
    by simp
  have "console_sendf (10 :: u8) [1, 2, 3] ?t =
      canbus_notify_tx
         (?t\<lparr>transmit_pos := 0,
            transmit_buf := memcpy_at (transmit_buf ?t) 0 [1, 2, 3] (length [1, 2, 3 :: u8]),
            transmit_max := of_nat (length [1, 2, 3 :: u8])\<rparr>)"
    using th [where s = ?t, THEN conjunct1, rule_format, OF e] by simp
  then have b: "unsent (console_sendf (10 :: u8) [1, 2, 3] ?t) = [1, 2, 3] \<and>
      transmit_pos (console_sendf (10 :: u8) [1, 2, 3] ?t) = 0"
    by (simp add: unsent_def canbus_notify_tx_def sched_wake_task_def memcpy_at_def
        boot_state_def)
  show ?thesis
    using a b by simp
qed

section \<open>Lemmas on the transmit task\<close>

lemma uint_small:
  fixes d :: u32
  assumes "unat d < 2 ^ 31"
  shows "uint d < 2 ^ 31"
proof -
  have "unat d < 2147483648"
    using assms by simp
  then have "int (unat d) < 2147483648"
    by linarith
  then show ?thesis
    by (simp only: uint_nat) simp
qed

lemma sint_small:
  fixes d :: u32
  assumes "unat d < 2 ^ 31"
  shows "sint d = int (unat d)"
proof -
  have "sint d = signed_take_bit 31 (uint d)"
    using sint_uint [of d] by simp
  also have "\<dots> = uint d"
  proof (rule signed_take_bit_int_eq_self)
    have "- (2 ^ 31) \<le> (0 :: int)"
      by simp
    also have "0 \<le> uint d"
      by simp
    finally show "- (2 ^ 31) \<le> uint d" .
    show "uint d < 2 ^ 31"
      by (rule uint_small [OF assms])
  qed
  finally show ?thesis
    by (simp only: uint_nat)
qed

lemma tx_avail:
  fixes tpos tmax :: u32
  assumes "unat tpos \<le> unat tmax" and "unat tmax \<le> 255"
  shows "sint (tmax - tpos) = int (unat tmax - unat tpos)"
proof -
  have "tpos \<le> tmax"
    using assms(1) by (simp add: word_le_nat_alt)
  then have u: "unat (tmax - tpos) = unat tmax - unat tpos"
    by (rule unat_sub)
  then have "unat (tmax - tpos) < 2 ^ 31"
    using assms(2) by simp
  from sint_small [OF this] show ?thesis
    by (simp only: u)
qed

lemma tx_advance:
  fixes tpos :: u32
  assumes "unat tpos + k \<le> 255"
  shows "unat (tpos + word_of_int (int k)) = unat tpos + k"
proof -
  have "unat (of_nat k :: u32) = k"
    using assms by (simp add: unat_of_nat)
  then have "unat (tpos + of_nat k) = unat tpos + k"
    using assms by (simp add: unat_word_ariths)
  then show ?thesis
    by simp
qed

lemma chunks8_Nil [simp]: "chunks8 [] = []"
  by (simp add: chunks8.simps)

lemma chunks8_Cons: "xs \<noteq> [] \<Longrightarrow> chunks8 xs = take 8 xs # chunks8 (drop 8 xs)"
  by (subst chunks8.simps) simp

lemma pending_step:
  assumes "p < l" and "l \<le> length buf"
  shows "take (l - (p + min 8 (l - p))) (drop (p + min 8 (l - p)) buf)
           = drop 8 (take (l - p) (drop p buf))"
    and "take 8 (take (l - p) (drop p buf)) = take (min 8 (l - p)) (drop p buf)"
    and "take (l - p) (drop p buf) \<noteq> []"
    and "length (take (min 8 (l - p)) (drop p buf)) = min 8 (l - p)"
  using assms by (auto simp add: drop_take min_def add.commute)

lemma tx_loop_refines:
  assumes "unat tpos \<le> unat tmax" and "unat tmax \<le> length (transmit_buf s)"
    and "unat tmax \<le> 255"
  shows "canbus_tx_loop cid tpos tmax s =
     (tpos + of_nat (length (concat (take
          (tx_accepted
             (chunks8 (take (unat tmax - unat tpos) (drop (unat tpos) (transmit_buf s))))
             (hw_send_ret s) (hw_sends s))
          (chunks8 (take (unat tmax - unat tpos) (drop (unat tpos) (transmit_buf s))))))),
      s\<lparr>hw_sends := hw_sends s + length (tx_events (cid + 1)
             (chunks8 (take (unat tmax - unat tpos) (drop (unat tpos) (transmit_buf s))))
             (hw_send_ret s) (hw_sends s)),
        trace := trace s @ tx_events (cid + 1)
             (chunks8 (take (unat tmax - unat tpos) (drop (unat tpos) (transmit_buf s))))
             (hw_send_ret s) (hw_sends s)\<rparr>)"
  using assms
proof (induction "unat tmax - unat tpos" arbitrary: tpos s rule: less_induct)
  case less
  let ?p = "unat tpos" and ?l = "unat tmax" and ?buf = "transmit_buf s"
  let ?hw = "hw_send_ret s" and ?n = "hw_sends s"
  have av: "sint (tmax - tpos) = int (?l - ?p)"
    by (rule tx_avail [OF less.prems(1,3)])
  show ?case
  proof (cases "?p < ?l")
    case False
    then have "?l - ?p = 0"
      by simp
    then show ?thesis
      by (subst canbus_tx_loop.simps) (simp add: av)
  next
    case True
    let ?k = "min 8 (?l - ?p)"
    let ?c = "take ?k (drop ?p ?buf)"
    let ?pend = "take (?l - ?p) (drop ?p ?buf)"
    let ?s1 = "s\<lparr>hw_sends := Suc ?n, trace := trace s @ [Send (cid + 1) ?c (?hw ?n)]\<rparr>"
    note ps = pending_step [OF True less.prems(2)]
    have now: "(if int (?l - ?p) > 8 then 8 else int (?l - ?p)) = int ?k"
      by simp
    have cs: "chunks8 ?pend = ?c # chunks8 (drop 8 ?pend)"
      using chunks8_Cons [OF ps(3)] by (simp only: ps(2))
    have pos: "\<not> int (?l - ?p) \<le> 0"
      using True by linarith
    have send: "canbus_send (cid + 1) ?k (drop ?p ?buf) s = (?hw ?n, ?s1)"
      by (simp add: canbus_send_def)
    have unfold: "canbus_tx_loop cid tpos tmax s =
        (if ?hw ?n \<le> 0 then (tpos, ?s1)
         else canbus_tx_loop cid (tpos + word_of_int (int ?k)) tmax ?s1)"
      by (subst canbus_tx_loop.simps) (simp only: av Let_def now pos if_False nat_int send fst_conv snd_conv)
    show ?thesis
    proof (cases "?hw ?n \<le> 0")
      case rej: True
      then show ?thesis
        unfolding unfold cs by simp
    next
      case acc: False
      define c where "c = ?c"
      define cs' where "cs' = chunks8 (drop 8 ?pend)"
      define a' where "a' = tx_accepted cs' ?hw (Suc ?n)"
      define evs' where "evs' = tx_events (cid + 1) cs' ?hw (Suc ?n)"
      define tpos' where "tpos' = tpos + word_of_int (int ?k)"
      have k: "?p + ?k \<le> 255"
        using True less.prems(3) by simp
      have p': "unat tpos' = ?p + ?k"
        unfolding tpos'_def by (rule tx_advance [OF k])
      have d: "?l - unat tpos' < ?l - ?p"
        unfolding p' using True by simp
      have le: "unat tpos' \<le> ?l"
        unfolding p' using True by simp
      have b1: "transmit_buf ?s1 = ?buf" and h1: "hw_send_ret ?s1 = ?hw"
        and n1: "hw_sends ?s1 = Suc ?n"
        by simp_all
      have pend': "take (?l - unat tpos') (drop (unat tpos') (transmit_buf ?s1)) = drop 8 ?pend"
        unfolding p' b1 by (rule ps(1))
      have l1: "?l \<le> length (transmit_buf ?s1)"
        using less.prems(2) by simp
      have rec: "canbus_tx_loop cid tpos' tmax ?s1 =
          (tpos' + of_nat (length (concat (take a' cs'))),
           ?s1\<lparr>hw_sends := hw_sends ?s1 + length evs', trace := trace ?s1 @ evs'\<rparr>)"
        using less.hyps [OF d le l1 less.prems(3)]
        unfolding pend' h1 n1 cs'_def [symmetric] a'_def [symmetric] evs'_def [symmetric] .
      have lc: "length c = ?k"
        unfolding c_def by (rule ps(4))
      have w: "tpos' + of_nat x = tpos + of_nat (length c + x)" for x
        unfolding lc tpos'_def by simp
      have lhs: "canbus_tx_loop cid tpos tmax s =
          (tpos + of_nat (length c + length (concat (take a' cs'))),
           s\<lparr>hw_sends := ?n + Suc (length evs'),
             trace := trace s @ Send (cid + 1) c (?hw ?n) # evs'\<rparr>)"
        unfolding unfold tpos'_def [symmetric] using acc
        by (simp add: rec w c_def del: of_nat_add)
      have cs2: "chunks8 ?pend = c # cs'"
        unfolding c_def cs'_def by (rule cs)
      show ?thesis
        unfolding lhs cs2 using acc
        by (simp add: a'_def evs'_def del: of_nat_add)
    qed
  qed
qed

lemma concat_chunks8: "concat (chunks8 xs) = xs"
proof (induction xs rule: chunks8.induct)
  case (1 xs)
  show ?case
  proof (cases "xs = []")
    case True
    then show ?thesis by simp
  next
    case False
    then show ?thesis
      using 1 by (simp add: chunks8_Cons)
  qed
qed

lemma chunks8_sizes: "c \<in> set (chunks8 xs) \<Longrightarrow> 0 < length c \<and> length c \<le> 8"
proof (induction xs rule: chunks8.induct)
  case (1 xs)
  show ?case
  proof (cases "xs = []")
    case True
    then show ?thesis using 1(2) by simp
  next
    case False
    then show ?thesis
      using 1 by (auto simp add: chunks8_Cons)
  qed
qed

lemma wire_bytes_append: "wire_bytes cid (a @ b) = wire_bytes cid a @ wire_bytes cid b"
  by (induction cid a rule: wire_bytes.induct) simp_all

lemma wire_tx_events:
  "wire_bytes cid (tx_events cid cs hw n) = concat (take (tx_accepted cs hw n) cs)"
  by (induction cs arbitrary: n) simp_all

lemma tx_accepted_le: "tx_accepted cs hw n \<le> length cs"
  by (induction cs arbitrary: n) simp_all

lemma tx_accepted_all:
  "(\<forall>j<length cs. 0 < hw (n + j)) \<Longrightarrow> tx_accepted cs hw n = length cs"
proof (induction cs arbitrary: n)
  case Nil
  then show ?case by simp
next
  case (Cons c cs)
  have "0 < hw n"
    using Cons.prems by force
  moreover have "\<forall>j<length cs. 0 < hw (Suc n + j)"
    using Cons.prems by force
  ultimately show ?case
    using Cons.IH [of "Suc n"] by simp
qed

lemma take_concat_prefix: "concat (take a cs) = take (length (concat (take a cs))) (concat cs)"
proof -
  have "concat cs = concat (take a cs) @ concat (drop a cs)"
    by (metis append_take_drop_id concat_append)
  then show ?thesis
    by (metis append_eq_conv_conj)
qed

lemma tx_events_length:
  "length (tx_events cid cs hw n) =
     (if tx_accepted cs hw n < length cs then Suc (tx_accepted cs hw n) else length cs)"
  by (induction cs arbitrary: n) simp_all

lemma tx_accepted_positive: "j < tx_accepted cs hw n \<Longrightarrow> 0 < hw (n + j)"
proof (induction cs arbitrary: n j)
  case Nil
  then show ?case by simp
next
  case (Cons c cs)
  show ?case
  proof (cases "hw n \<le> 0")
    case True
    then show ?thesis using Cons.prems by simp
  next
    case False
    show ?thesis
    proof (cases j)
      case 0
      then show ?thesis using False by simp
    next
      case (Suc i)
      then have "i < tx_accepted cs hw (Suc n)"
        using Cons.prems False by simp
      from Cons.IH [OF this] show ?thesis
        using Suc by simp
    qed
  qed
qed

lemma tx_accepted_stops:
  "tx_accepted cs hw n < length cs \<Longrightarrow> hw (n + tx_accepted cs hw n) \<le> 0"
proof (induction cs arbitrary: n)
  case Nil
  then show ?case by simp
next
  case (Cons c cs)
  show ?case
  proof (cases "hw n \<le> 0")
    case True
    then show ?thesis by simp
  next
    case False
    then have "tx_accepted cs hw (Suc n) < length cs"
      using Cons.prems by simp
    from Cons.IH [OF this] show ?thesis
      using False by simp
  qed
qed

lemma tx_events_nth:
  "j < length (tx_events cid cs hw n) \<Longrightarrow>
   tx_events cid cs hw n ! j = Send cid (cs ! j) (hw (n + j))"
proof (induction cs arbitrary: n j)
  case Nil
  then show ?case by simp
next
  case (Cons c cs)
  show ?case
  proof (cases j)
    case 0
    then show ?thesis by simp
  next
    case (Suc i)
    then have ne: "\<not> hw n \<le> 0" and "i < length (tx_events cid cs hw (Suc n))"
      using Cons.prems by (simp_all split: if_splits)
    from Cons.IH [OF this(2)] show ?thesis
      using Suc ne by simp
  qed
qed

lemma tx_task_idle:
  assumes "\<not> canbus_tx_wake s"
  shows "canbus_tx_task s = s"
  using assms by (simp add: canbus_tx_task_def sched_check_wake_def)

lemma tx_task_unassigned:
  assumes "canbus_tx_wake s" and "canbus_assigned_id s = 0"
  shows "canbus_tx_task s = s\<lparr>canbus_tx_wake := False, transmit_pos := 0, transmit_max := 0\<rparr>"
  using assms by (simp add: canbus_tx_task_def sched_check_wake_def)

lemma tx_task_runs:
  assumes woken: "canbus_tx_wake s" and cid: "canbus_assigned_id s \<noteq> 0" and inv: "tx_inv s"
  shows "canbus_tx_task s =
     s\<lparr>canbus_tx_wake := False,
       transmit_pos := of_nat (unat (transmit_pos s) + length (tx_sent_bytes s)),
       hw_sends := hw_sends s + length (tx_attempts s),
       trace := trace s @ tx_attempts s\<rparr>"
proof -
  let ?s0 = "s\<lparr>canbus_tx_wake := False\<rparr>"
  let ?tpos = "ucast (transmit_pos s) :: u32" and ?tmax = "ucast (transmit_max s) :: u32"
  have a: "unat ?tpos \<le> unat ?tmax"
    using inv by (simp add: tx_inv_def)
  have b: "unat ?tmax \<le> length (transmit_buf ?s0)"
    using inv by (simp add: tx_inv_def)
  have c: "unat ?tmax \<le> 255"
    using inv by (simp add: tx_inv_def)
  have pend: "take (unat ?tmax - unat ?tpos) (drop (unat ?tpos) (transmit_buf ?s0)) = unsent s"
    by (simp add: unsent_def)
  have loop: "canbus_tx_loop (canbus_assigned_id s) ?tpos ?tmax ?s0 =
      (?tpos + of_nat (length (tx_sent_bytes s)),
       ?s0\<lparr>hw_sends := hw_sends s + length (tx_attempts s),
           trace := trace s @ tx_attempts s\<rparr>)"
    using tx_loop_refines [OF a b c, of "canbus_assigned_id s"]
    unfolding pend
    by (simp add: tx_sent_bytes_def tx_attempts_def tx_taken_def tx_frames_def)
  have p: "(ucast (?tpos + of_nat (length (tx_sent_bytes s))) :: u8)
      = of_nat (unat (transmit_pos s) + length (tx_sent_bytes s))"
    by (rule limit_after) simp
  show ?thesis
    unfolding canbus_tx_task_def sched_check_wake_def Let_def using woken cid
    by (simp add: loop p del: of_nat_add)
qed


lemma tx_sent_prefix:
  "tx_sent_bytes s = take (length (tx_sent_bytes s)) (unsent s)"
  unfolding tx_sent_bytes_def tx_frames_def
  using take_concat_prefix [of "tx_taken s" "chunks8 (unsent s)"]
  by (simp only: concat_chunks8)

lemma tx_sent_length: "length (tx_sent_bytes s) \<le> length (unsent s)"
proof -
  have "length (take (length (tx_sent_bytes s)) (unsent s)) \<le> length (unsent s)"
    by simp
  then show ?thesis
    by (simp only: tx_sent_prefix [symmetric])
qed

lemma tx_task_effect:
  assumes woken: "canbus_tx_wake s" and cid: "canbus_assigned_id s \<noteq> 0" and inv: "tx_inv s"
  shows "tx_inv (canbus_tx_task s)"
    and "unsent (canbus_tx_task s) = drop (length (tx_sent_bytes s)) (unsent s)"
    and "wire_bytes (canbus_assigned_id s + 1) (trace (canbus_tx_task s)) =
           wire_bytes (canbus_assigned_id s + 1) (trace s) @ tx_sent_bytes s"
    and "unat (transmit_pos (canbus_tx_task s)) =
           unat (transmit_pos s) + length (tx_sent_bytes s)"
proof -
  let ?x = "length (tx_sent_bytes s)"
  let ?p = "unat (transmit_pos s)" and ?l = "unat (transmit_max s)"
  let ?s' = "canbus_tx_task s"
  note eq = tx_task_runs [OF woken cid inv]
  have x: "?x \<le> ?l - ?p"
    using tx_sent_length [of s] by (simp only: length_unsent [OF inv])
  have pl: "?p \<le> ?l" and l96: "?l \<le> 96" and len: "length (transmit_buf s) = 96"
    using inv by (simp_all add: tx_inv_def)
  have "?p + ?x < 256"
    using x pl l96 by simp
  then have u: "unat (of_nat (?p + ?x) :: u8) = ?p + ?x"
    by (rule unat_of_nat_u8)
  have f: "transmit_pos ?s' = of_nat (?p + ?x)" "transmit_max ?s' = transmit_max s"
    "transmit_buf ?s' = transmit_buf s" "trace ?s' = trace s @ tx_attempts s"
    unfolding eq by simp_all
  show p': "unat (transmit_pos ?s') = ?p + ?x"
    unfolding f(1) by (rule u)
  show "tx_inv ?s'"
    unfolding tx_inv_def p' f(2,3) using x pl l96 len by simp
  show "unsent ?s' = drop ?x (unsent s)"
    unfolding unsent_def [of ?s'] p' f(2,3) unsent_def [of s]
    by (simp add: drop_take add.commute)
  show "wire_bytes (canbus_assigned_id s + 1) (trace ?s') =
      wire_bytes (canbus_assigned_id s + 1) (trace s) @ tx_sent_bytes s"
    unfolding f(4)
    by (simp add: wire_bytes_append tx_attempts_def wire_tx_events tx_sent_bytes_def
        tx_taken_def)
qed

text \<open>The bytes sent so far followed by the bytes still waiting.\<close>

lemma tx_task_any:
  assumes cid: "canbus_assigned_id s \<noteq> 0" and inv: "tx_inv s"
  shows "tx_inv (canbus_tx_task s)"
    and "wire_bytes (canbus_assigned_id s + 1) (trace (canbus_tx_task s)) @
           unsent (canbus_tx_task s) =
         wire_bytes (canbus_assigned_id s + 1) (trace s) @ unsent s"
    and "canbus_assigned_id (canbus_tx_task s) = canbus_assigned_id s"
    and "length (unsent (canbus_tx_task s)) \<le> length (unsent s)"
proof -
  have "tx_inv (canbus_tx_task s) \<and>
      wire_bytes (canbus_assigned_id s + 1) (trace (canbus_tx_task s)) @
           unsent (canbus_tx_task s) =
         wire_bytes (canbus_assigned_id s + 1) (trace s) @ unsent s \<and>
      canbus_assigned_id (canbus_tx_task s) = canbus_assigned_id s \<and>
      length (unsent (canbus_tx_task s)) \<le> length (unsent s)"
  proof (cases "canbus_tx_wake s")
    case False
    then show ?thesis
      using inv by (simp add: tx_task_idle)
  next
    case True
    note eff = tx_task_effect [OF True cid inv]
    have "tx_sent_bytes s @ drop (length (tx_sent_bytes s)) (unsent s) = unsent s"
      using tx_sent_prefix [of s] by (metis append_take_drop_id)
    then have "wire_bytes (canbus_assigned_id s + 1) (trace (canbus_tx_task s)) @
           unsent (canbus_tx_task s) =
         wire_bytes (canbus_assigned_id s + 1) (trace s) @ unsent s"
      unfolding eff(2,3) by simp
    moreover have "canbus_assigned_id (canbus_tx_task s) = canbus_assigned_id s"
      unfolding tx_task_runs [OF True cid inv] by simp
    moreover have "length (unsent (canbus_tx_task s)) \<le> length (unsent s)"
      unfolding eff(2) by simp
    ultimately show ?thesis
      using eff(1) by simp
  qed
  then show "tx_inv (canbus_tx_task s)"
    and "wire_bytes (canbus_assigned_id s + 1) (trace (canbus_tx_task s)) @
           unsent (canbus_tx_task s) =
         wire_bytes (canbus_assigned_id s + 1) (trace s) @ unsent s"
    and "canbus_assigned_id (canbus_tx_task s) = canbus_assigned_id s"
    and "length (unsent (canbus_tx_task s)) \<le> length (unsent s)"
    by simp_all
qed

lemma tx_task_preserves_inv:
  assumes inv: "tx_inv s"
  shows "tx_inv (canbus_tx_task s)"
proof (cases "canbus_assigned_id s = 0")
  case False
  then show ?thesis
    by (rule tx_task_any(1) [OF _ inv])
next
  case True
  show ?thesis
  proof (cases "canbus_tx_wake s")
    case False
    then show ?thesis
      using inv by (simp add: tx_task_idle)
  next
    case w: True
    show ?thesis
      unfolding tx_task_unassigned [OF w True] using inv by (simp add: tx_inv_def)
  qed
qed

lemma sendf_wire:
  fixes ce_max_size :: "'w::len word"
  shows "wire_bytes cid (trace (console_sendf ce_max_size msg s)) = wire_bytes cid (trace s)"
  using sendf_frame(4) [of ce_max_size msg s]
  by (auto simp add: wire_bytes_append)

lemma tx_step_any:
  fixes x :: "('w::len) word tx_op"
  assumes w: "LENGTH('w) < 32" and cid: "canbus_assigned_id s \<noteq> 0" and inv: "tx_inv s"
    and enc: "encoders_ok [x]"
  shows "tx_inv (tx_step x s)"
    and "wire_bytes (canbus_assigned_id s + 1) (trace (tx_step x s)) @ unsent (tx_step x s) =
         wire_bytes (canbus_assigned_id s + 1) (trace s) @ unsent s @ tx_adds x s"
    and "canbus_assigned_id (tx_step x s) = canbus_assigned_id s"
    and "length (unsent (tx_step x s)) \<le> length (unsent s) + tx_declared [x]"
proof -
  have "tx_inv (tx_step x s) \<and>
      wire_bytes (canbus_assigned_id s + 1) (trace (tx_step x s)) @ unsent (tx_step x s) =
         wire_bytes (canbus_assigned_id s + 1) (trace s) @ unsent s @ tx_adds x s \<and>
      canbus_assigned_id (tx_step x s) = canbus_assigned_id s \<and>
      length (unsent (tx_step x s)) \<le> length (unsent s) + tx_declared [x]"
  proof (cases x)
    case (Enqueue m msg)
    have e: "length msg \<le> unat m"
      using enc Enqueue by simp
    show ?thesis
      unfolding Enqueue using e
      by (simp add: sendf_preserves_inv [OF w inv e] sendf_unsent [OF w inv e] sendf_wire
          sendf_frame(1))
  next
    case RunTxTask
    show ?thesis
      unfolding RunTxTask using tx_task_any [OF cid inv] by simp
  next
    case NotifyTx
    show ?thesis
      unfolding NotifyTx using inv
      by (simp add: canbus_notify_tx_def sched_wake_task_def tx_inv_def unsent_def
          wire_bytes_append)
  qed
  then show "tx_inv (tx_step x s)"
    and "wire_bytes (canbus_assigned_id s + 1) (trace (tx_step x s)) @ unsent (tx_step x s) =
         wire_bytes (canbus_assigned_id s + 1) (trace s) @ unsent s @ tx_adds x s"
    and "canbus_assigned_id (tx_step x s) = canbus_assigned_id s"
    and "length (unsent (tx_step x s)) \<le> length (unsent s) + tx_declared [x]"
    by simp_all
qed

lemma encoders_ok_Cons:
  fixes x :: "('w::len) word tx_op"
  shows "encoders_ok (x # xs) \<longleftrightarrow> encoders_ok [x] \<and> encoders_ok xs"
  by (cases x) simp_all

lemma tx_declared_Cons:
  fixes x :: "('w::len) word tx_op"
  shows "tx_declared (x # xs) = tx_declared [x] + tx_declared xs"
  by (cases x) simp_all

lemma tx_msgs_Cons:
  fixes x :: "('w::len) word tx_op"
  shows "tx_msgs (x # xs) = tx_msgs [x] @ tx_msgs xs"
  by (cases x) simp_all

lemma tx_adds_fits:
  fixes x :: "('w::len) word tx_op"
  assumes "length (unsent s) + tx_declared [x] \<le> 96"
  shows "tx_adds x s = tx_msgs [x]"
  using assms by (cases x) simp_all

lemma tx_run_fifo:
  fixes ops :: "('w::len) word tx_op list"
  assumes w: "LENGTH('w) < 32" and cid: "canbus_assigned_id s \<noteq> 0" and inv: "tx_inv s"
    and enc: "encoders_ok ops"
  shows "tx_inv (tx_run ops s) \<and>
     canbus_assigned_id (tx_run ops s) = canbus_assigned_id s \<and>
     wire_bytes (canbus_assigned_id s + 1) (trace (tx_run ops s)) @ unsent (tx_run ops s) =
       wire_bytes (canbus_assigned_id s + 1) (trace s) @ unsent s @ tx_buffered ops s \<and>
     (length (unsent s) + tx_declared ops \<le> 96 \<longrightarrow> tx_buffered ops s = tx_msgs ops)"
  using cid inv enc
proof (induction ops arbitrary: s)
  case Nil
  then show ?case by simp
next
  case (Cons x xs)
  let ?s1 = "tx_step x s"
  have e1: "encoders_ok [x]" and e2: "encoders_ok xs"
    using Cons.prems(3) encoders_ok_Cons [of x xs] by simp_all
  note st = tx_step_any [OF w Cons.prems(1,2) e1]
  have cid1: "canbus_assigned_id ?s1 \<noteq> 0"
    using st(3) Cons.prems(1) by simp
  note ih = Cons.IH [OF cid1 st(1) e2, unfolded st(3)]
  have a: "tx_inv (tx_run (x # xs) s)"
    using ih by simp
  have b: "canbus_assigned_id (tx_run (x # xs) s) = canbus_assigned_id s"
    using ih by simp
  have "wire_bytes (canbus_assigned_id s + 1) (trace (tx_run (x # xs) s)) @
        unsent (tx_run (x # xs) s) =
      (wire_bytes (canbus_assigned_id s + 1) (trace ?s1) @ unsent ?s1) @ tx_buffered xs ?s1"
    using ih by simp
  then have c: "wire_bytes (canbus_assigned_id s + 1) (trace (tx_run (x # xs) s)) @
        unsent (tx_run (x # xs) s) =
      wire_bytes (canbus_assigned_id s + 1) (trace s) @ unsent s @ tx_buffered (x # xs) s"
    unfolding st(2) by simp
  have d: "tx_buffered (x # xs) s = tx_msgs (x # xs)"
    if fit: "length (unsent s) + tx_declared (x # xs) \<le> 96"
  proof -
    have f1: "length (unsent s) + tx_declared [x] \<le> 96"
      using fit tx_declared_Cons [of x xs] by simp
    have "length (unsent ?s1) + tx_declared xs \<le> 96"
      using fit st(4) tx_declared_Cons [of x xs] by simp
    then have "tx_buffered xs ?s1 = tx_msgs xs"
      using ih by simp
    then show ?thesis
      using tx_adds_fits [OF f1] tx_msgs_Cons [of x xs] by simp
  qed
  show ?case
    using a b c d by (intro conjI impI)
qed

lemma tx_task_flushes:
  assumes woken: "canbus_tx_wake s" and cid: "canbus_assigned_id s \<noteq> 0" and inv: "tx_inv s"
    and ok: "\<forall>j<length (tx_frames s). 0 < hw_send_ret s (hw_sends s + j)"
  shows "unsent (canbus_tx_task s) = []"
    and "wire_bytes (canbus_assigned_id s + 1) (trace (canbus_tx_task s)) =
           wire_bytes (canbus_assigned_id s + 1) (trace s) @ unsent s"
proof -
  have "tx_taken s = length (tx_frames s)"
    unfolding tx_taken_def by (rule tx_accepted_all [OF ok])
  then have all: "tx_sent_bytes s = unsent s"
    by (simp add: tx_sent_bytes_def tx_frames_def concat_chunks8)
  note eff = tx_task_effect [OF woken cid inv]
  show "unsent (canbus_tx_task s) = []"
    unfolding eff(2) all by simp
  show "wire_bytes (canbus_assigned_id s + 1) (trace (canbus_tx_task s)) =
           wire_bytes (canbus_assigned_id s + 1) (trace s) @ unsent s"
    unfolding eff(3) all by simp
qed

lemma chunks8_length_pos: "j < length (chunks8 xs) \<Longrightarrow> xs \<noteq> []"
  by (cases "xs = []") simp_all

lemma chunks8_nth:
  "j < length (chunks8 xs) \<Longrightarrow> chunks8 xs ! j = take 8 (drop (8 * j) xs)"
proof (induction j arbitrary: xs)
  case 0
  have "xs \<noteq> []"
    using 0 by (rule chunks8_length_pos)
  then show ?case
    by (simp add: chunks8_Cons)
next
  case (Suc j)
  have ne: "xs \<noteq> []"
    using Suc.prems by (rule chunks8_length_pos)
  then have "j < length (chunks8 (drop 8 xs))"
    using Suc.prems by (simp add: chunks8_Cons)
  from Suc.IH [OF this] show ?case
    using ne by (simp add: chunks8_Cons add.commute)
qed


lemma sendf_wakes:
  fixes ce_max_size :: "'w::len word"
  assumes w: "LENGTH('w) < 32" and inv: "tx_inv s"
    and room: "length (unsent s) + unat ce_max_size \<le> 96"
  shows "canbus_tx_wake (console_sendf ce_max_size msg s)"
    and "trace (console_sendf ce_max_size msg s) = trace s @ [WakeTask TX]"
proof -
  let ?s' = "console_sendf ce_max_size msg s"
  have r: "unat (transmit_max s) - unat (transmit_pos s) + unat ce_max_size \<le> 96"
    using room unfolding length_unsent [OF inv] .
  have "canbus_tx_wake ?s' \<and> trace ?s' = trace s @ [WakeTask TX]"
  proof (cases "unat (transmit_max s) \<le> unat (transmit_pos s)")
    case True
    have room0: "unat ce_max_size \<le> 96"
      using r by linarith
    show ?thesis
      unfolding sendf_reset [OF w True room0]
      by (simp add: canbus_notify_tx_def sched_wake_task_def)
  next
    case False
    then have pl: "unat (transmit_pos s) < unat (transmit_max s)"
      by simp
    show ?thesis
    proof (cases "96 < unat (transmit_max s) + unat ce_max_size")
      case True
      show ?thesis
        unfolding sendf_moved [OF w pl True r]
        by (simp add: canbus_notify_tx_def sched_wake_task_def)
    next
      case False
      then have room1: "unat (transmit_max s) + unat ce_max_size \<le> 96"
        by simp
      show ?thesis
        unfolding sendf_appended [OF w pl room1]
        by (simp add: canbus_notify_tx_def sched_wake_task_def)
    qed
  qed
  then show "canbus_tx_wake ?s'" and "trace ?s' = trace s @ [WakeTask TX]"
    by (rule conjunct1, rule conjunct2)
qed

lemma tx_task_driver:
  assumes inv: "tx_inv s"
  shows "hw_send_ret (canbus_tx_task s) = hw_send_ret s"
proof (cases "canbus_tx_wake s")
  case False
  then show ?thesis by (simp add: tx_task_idle)
next
  case woken: True
  show ?thesis
  proof (cases "canbus_assigned_id s = 0")
    case True
    show ?thesis
      unfolding tx_task_unassigned [OF woken True] by simp
  next
    case False
    show ?thesis
      unfolding tx_task_runs [OF woken False inv] by simp
  qed
qed

lemma tx_step_driver:
  fixes x :: "('w::len) word tx_op"
  assumes inv: "tx_inv s"
  shows "hw_send_ret (tx_step x s) = hw_send_ret s"
proof (cases x)
  case (Enqueue m msg)
  then show ?thesis by (simp add: sendf_frame(2))
next
  case RunTxTask
  then show ?thesis by (simp add: tx_task_driver [OF inv])
next
  case NotifyTx
  then show ?thesis by (simp add: canbus_notify_tx_def sched_wake_task_def)
qed

lemma tx_step_live:
  fixes x :: "('w::len) word tx_op"
  assumes w: "LENGTH('w) < 32" and cid: "canbus_assigned_id s \<noteq> 0" and inv: "tx_inv s"
    and ok: "\<forall>n. 0 < hw_send_ret s n"
    and live: "canbus_tx_wake s \<or> unsent s = []"
  shows "canbus_tx_wake (tx_step x s) \<or> unsent (tx_step x s) = []"
proof (cases x)
  case (Enqueue m msg)
  show ?thesis
  proof (cases "96 < length (unsent s) + unat m")
    case True
    then have full: "96 < unat (transmit_max s) - unat (transmit_pos s) + unat m"
      unfolding length_unsent [OF inv] .
    show ?thesis
      using live unfolding Enqueue tx_step.simps
      by (simp only: sendf_dropped_effect(3,5) [OF w full])
  next
    case False
    then have room: "length (unsent s) + unat m \<le> 96"
      by simp
    show ?thesis
      unfolding Enqueue tx_step.simps
      by (rule disjI1) (rule sendf_wakes(1) [OF w inv room])
  qed
next
  case RunTxTask
  show ?thesis
  proof (cases "canbus_tx_wake s")
    case True
    have "\<forall>j<length (tx_frames s). 0 < hw_send_ret s (hw_sends s + j)"
      using ok by simp
    from tx_task_flushes(1) [OF True cid inv this] show ?thesis
      unfolding RunTxTask tx_step.simps by (rule disjI2)
  next
    case False
    then have "unsent s = []"
      using live by simp
    then show ?thesis
      unfolding RunTxTask tx_step.simps by (simp add: tx_task_idle [OF False])
  qed
next
  case NotifyTx
  then show ?thesis by (simp add: canbus_notify_tx_def sched_wake_task_def)
qed

lemma tx_run_live:
  fixes ops :: "('w::len) word tx_op list"
  assumes w: "LENGTH('w) < 32" and cid: "canbus_assigned_id s \<noteq> 0" and inv: "tx_inv s"
    and enc: "encoders_ok ops"
    and ok: "\<forall>n. 0 < hw_send_ret s n"
    and live: "canbus_tx_wake s \<or> unsent s = []"
  shows "(canbus_tx_wake (tx_run ops s) \<or> unsent (tx_run ops s) = []) \<and>
     hw_send_ret (tx_run ops s) = hw_send_ret s"
  using cid inv enc ok live
proof (induction ops arbitrary: s)
  case Nil
  then show ?case by simp
next
  case (Cons x xs)
  have e1: "encoders_ok [x]" and e2: "encoders_ok xs"
    using Cons.prems(3) encoders_ok_Cons [of x xs] by simp_all
  note st = tx_step_any [OF w Cons.prems(1) Cons.prems(2) e1]
  have d: "hw_send_ret (tx_step x s) = hw_send_ret s"
    by (rule tx_step_driver [OF Cons.prems(2)])
  have c': "canbus_assigned_id (tx_step x s) \<noteq> 0"
    unfolding st(3) by (rule Cons.prems(1))
  have ok': "\<forall>n. 0 < hw_send_ret (tx_step x s) n"
    unfolding d by (rule Cons.prems(4))
  have l': "canbus_tx_wake (tx_step x s) \<or> unsent (tx_step x s) = []"
    by (rule tx_step_live [OF w Cons.prems(1) Cons.prems(2) Cons.prems(4) Cons.prems(5)])
  from Cons.IH [OF c' st(1) e2 ok' l'] show ?case
    unfolding tx_run.simps d .
qed

lemma tx_run_append: "tx_run (xs @ ys) s = tx_run ys (tx_run xs s)"
  by (induction xs arbitrary: s) simp_all

lemma tx_run_flushes:
  fixes ops :: "('w::len) word tx_op list"
  assumes w: "LENGTH('w) < 32" and cid: "canbus_assigned_id s \<noteq> 0" and inv: "tx_inv s"
    and enc: "encoders_ok ops"
    and ok: "\<forall>n. 0 < hw_send_ret s n"
    and live: "canbus_tx_wake s \<or> unsent s = []"
  shows "unsent (tx_run (ops @ [RunTxTask]) s) = []"
    and "wire_bytes (canbus_assigned_id s + 1) (trace (tx_run (ops @ [RunTxTask]) s)) =
         wire_bytes (canbus_assigned_id s + 1) (trace s) @ unsent s @ tx_buffered ops s"
proof -
  let ?t = "tx_run ops s"
  let ?c = "canbus_assigned_id s + 1"
  have r: "tx_run (ops @ [RunTxTask]) s = canbus_tx_task ?t"
    by (simp add: tx_run_append)
  note f = tx_run_fifo [OF w cid inv enc]
  have ti: "tx_inv ?t" and tc: "canbus_assigned_id ?t = canbus_assigned_id s"
    and tw: "wire_bytes ?c (trace ?t) @ unsent ?t =
       wire_bytes ?c (trace s) @ unsent s @ tx_buffered ops s"
    using f by blast+
  note l = tx_run_live [OF w cid inv enc ok live]
  have tl: "canbus_tx_wake ?t \<or> unsent ?t = []" and td: "hw_send_ret ?t = hw_send_ret s"
    using l by blast+
  have tcid: "canbus_assigned_id ?t \<noteq> 0"
    unfolding tc by (rule cid)
  have "unsent (canbus_tx_task ?t) = [] \<and>
      wire_bytes ?c (trace (canbus_tx_task ?t)) = wire_bytes ?c (trace ?t) @ unsent ?t"
  proof (cases "canbus_tx_wake ?t")
    case True
    have a: "\<forall>j<length (tx_frames ?t). 0 < hw_send_ret ?t (hw_sends ?t + j)"
      unfolding td using ok by simp
    note fl = tx_task_flushes [OF True tcid ti a]
    show ?thesis
      using fl unfolding tc by (rule conjI)
  next
    case False
    then have "unsent ?t = []"
      using tl by simp
    then show ?thesis
      by (simp add: tx_task_idle [OF False])
  qed
  then show "unsent (tx_run (ops @ [RunTxTask]) s) = []"
    and "wire_bytes ?c (trace (tx_run (ops @ [RunTxTask]) s)) =
         wire_bytes ?c (trace s) @ unsent s @ tx_buffered ops s"
    unfolding r tw by (rule conjunct1, rule conjunct2)
qed

section \<open>The claims on the transmit pipeline\<close>

text \<open>
  C3. A woken transmit task with a nonzero assigned address sends the pending bytes
  \<open>[position, limit)\<close> frame by frame: frame \<open>j\<close> holds the (at most 8) bytes from offset
  \<open>8 * j\<close> of the pending bytes, every send goes to the assigned address plus one, the
  sends before the last have positive answers, a run that does not reach the end stops at
  a send whose answer is not positive, and position ends behind the bytes of the accepted
  frames. With the address 0 the woken task sets both cursors to 0 and sends nothing.
  Consequently, for every sequence of enqueues, runs of the task and wake-ups (encoders
  within their declared sizes, address nonzero): the bytes taken by the driver followed
  by the bytes still waiting are always the buffered messages in enqueue order; when the
  declared sizes fit the buffer together, no message is dropped; and when the driver takes
  every frame, a run of the task puts all waiting bytes on the wire.
  The bytes do get to the wire: an enqueue that finds room wakes the transmit task
  (\<open>canbus_notify_tx\<close>), so that the next run of the task sends the frames of the pending
  bytes with the message behind them; and with a driver that takes every frame, whatever
  the sequence of enqueues, runs and wake-ups was, after one more run of the task nothing
  is left waiting and the wire carries all the buffered messages in enqueue order.
\<close>

theorem tx_task_sends_fifo:
  fixes ops :: "('w::len) word tx_op list" and m :: "'w word"
  shows
  "(canbus_tx_wake s \<and> canbus_assigned_id s \<noteq> 0 \<and> tx_inv s \<longrightarrow>
      canbus_tx_task s =
        s\<lparr>canbus_tx_wake := False,
          transmit_pos := of_nat (unat (transmit_pos s) + length (tx_sent_bytes s)),
          hw_sends := hw_sends s + length (tx_attempts s),
          trace := trace s @ tx_attempts s\<rparr> \<and>
      unat (transmit_pos (canbus_tx_task s)) = unat (transmit_pos s) + length (tx_sent_bytes s) \<and>
      concat (tx_frames s) = unsent s \<and>
      (\<forall>j<length (tx_frames s).
          tx_frames s ! j = take 8 (drop (8 * j) (unsent s)) \<and>
          0 < length (tx_frames s ! j) \<and> length (tx_frames s ! j) \<le> 8) \<and>
      (\<forall>j<length (tx_attempts s).
          tx_attempts s ! j =
            Send (canbus_assigned_id s + 1) (tx_frames s ! j) (hw_send_ret s (hw_sends s + j))) \<and>
      length (tx_attempts s) =
        (if tx_taken s < length (tx_frames s) then Suc (tx_taken s) else length (tx_frames s)) \<and>
      (\<forall>j<tx_taken s. 0 < hw_send_ret s (hw_sends s + j)) \<and>
      (tx_taken s < length (tx_frames s) \<longrightarrow> hw_send_ret s (hw_sends s + tx_taken s) \<le> 0) \<and>
      tx_sent_bytes s = take (length (tx_sent_bytes s)) (unsent s) \<and>
      unsent (canbus_tx_task s) = drop (length (tx_sent_bytes s)) (unsent s) \<and>
      wire_bytes (canbus_assigned_id s + 1) (trace (canbus_tx_task s)) =
        wire_bytes (canbus_assigned_id s + 1) (trace s) @ tx_sent_bytes s) \<and>
   (canbus_tx_wake s \<and> canbus_assigned_id s = 0 \<longrightarrow>
      canbus_tx_task s = s\<lparr>canbus_tx_wake := False, transmit_pos := 0, transmit_max := 0\<rparr>) \<and>
   (LENGTH('w) < 32 \<and> canbus_assigned_id s \<noteq> 0 \<and> tx_inv s \<and> encoders_ok ops \<longrightarrow>
      tx_inv (tx_run ops s) \<and>
      canbus_assigned_id (tx_run ops s) = canbus_assigned_id s \<and>
      wire_bytes (canbus_assigned_id s + 1) (trace (tx_run ops s)) @ unsent (tx_run ops s) =
        wire_bytes (canbus_assigned_id s + 1) (trace s) @ unsent s @ tx_buffered ops s \<and>
      (length (unsent s) + tx_declared ops \<le> 96 \<longrightarrow> tx_buffered ops s = tx_msgs ops)) \<and>
   (canbus_tx_wake s \<and> canbus_assigned_id s \<noteq> 0 \<and> tx_inv s \<and>
    (\<forall>j<length (tx_frames s). 0 < hw_send_ret s (hw_sends s + j)) \<longrightarrow>
      unsent (canbus_tx_task s) = [] \<and>
      wire_bytes (canbus_assigned_id s + 1) (trace (canbus_tx_task s)) =
        wire_bytes (canbus_assigned_id s + 1) (trace s) @ unsent s) \<and>
   (LENGTH('w) < 32 \<and> canbus_assigned_id s \<noteq> 0 \<and> tx_inv s \<and> length msg \<le> unat m \<and>
    length (unsent s) + unat m \<le> 96 \<longrightarrow>
      canbus_tx_wake (console_sendf m msg s) \<and>
      trace (console_sendf m msg s) = trace s @ [WakeTask TX] \<and>
      unsent (console_sendf m msg s) = unsent s @ msg \<and>
      tx_inv (console_sendf m msg s) \<and>
      canbus_assigned_id (console_sendf m msg s) = canbus_assigned_id s \<and>
      trace (canbus_tx_task (console_sendf m msg s)) =
        trace s @ [WakeTask TX] @
        tx_events (canbus_assigned_id s + 1) (chunks8 (unsent s @ msg))
          (hw_send_ret s) (hw_sends s)) \<and>
   (LENGTH('w) < 32 \<and> canbus_assigned_id s \<noteq> 0 \<and> tx_inv s \<and> encoders_ok ops \<and>
    (canbus_tx_wake s \<or> unsent s = []) \<and> (\<forall>n. 0 < hw_send_ret s n) \<longrightarrow>
      unsent (tx_run (ops @ [RunTxTask]) s) = [] \<and>
      wire_bytes (canbus_assigned_id s + 1) (trace (tx_run (ops @ [RunTxTask]) s)) =
        wire_bytes (canbus_assigned_id s + 1) (trace s) @ unsent s @ tx_buffered ops s \<and>
      (length (unsent s) + tx_declared ops \<le> 96 \<longrightarrow>
         wire_bytes (canbus_assigned_id s + 1) (trace (tx_run (ops @ [RunTxTask]) s)) =
           wire_bytes (canbus_assigned_id s + 1) (trace s) @ unsent s @ tx_msgs ops))"
proof -
  have frames: "\<forall>j<length (tx_frames s).
          tx_frames s ! j = take 8 (drop (8 * j) (unsent s)) \<and>
          0 < length (tx_frames s ! j) \<and> length (tx_frames s ! j) \<le> 8"
  proof (intro allI impI)
    fix j assume j: "j < length (tx_frames s)"
    then have "tx_frames s ! j \<in> set (chunks8 (unsent s))"
      by (simp add: tx_frames_def)
    from chunks8_sizes [OF this] show "tx_frames s ! j = take 8 (drop (8 * j) (unsent s)) \<and>
          0 < length (tx_frames s ! j) \<and> length (tx_frames s ! j) \<le> 8"
      using j chunks8_nth [of j "unsent s"] by (simp add: tx_frames_def)
  qed
  have attempts: "\<forall>j<length (tx_attempts s).
          tx_attempts s ! j =
            Send (canbus_assigned_id s + 1) (tx_frames s ! j) (hw_send_ret s (hw_sends s + j))"
    unfolding tx_attempts_def by (simp add: tx_events_nth)
  have len: "length (tx_attempts s) =
        (if tx_taken s < length (tx_frames s) then Suc (tx_taken s) else length (tx_frames s))"
    unfolding tx_attempts_def tx_taken_def by (rule tx_events_length)
  have taken: "\<forall>j<tx_taken s. 0 < hw_send_ret s (hw_sends s + j)"
    unfolding tx_taken_def by (simp add: tx_accepted_positive)
  have stops: "tx_taken s < length (tx_frames s) \<longrightarrow>
      hw_send_ret s (hw_sends s + tx_taken s) \<le> 0"
    unfolding tx_taken_def by (simp add: tx_accepted_stops)
  have cc: "concat (tx_frames s) = unsent s"
    unfolding tx_frames_def by (rule concat_chunks8)
  have p1: "canbus_tx_task s =
        s\<lparr>canbus_tx_wake := False,
          transmit_pos := of_nat (unat (transmit_pos s) + length (tx_sent_bytes s)),
          hw_sends := hw_sends s + length (tx_attempts s),
          trace := trace s @ tx_attempts s\<rparr> \<and>
      unat (transmit_pos (canbus_tx_task s)) = unat (transmit_pos s) + length (tx_sent_bytes s) \<and>
      concat (tx_frames s) = unsent s \<and>
      (\<forall>j<length (tx_frames s).
          tx_frames s ! j = take 8 (drop (8 * j) (unsent s)) \<and>
          0 < length (tx_frames s ! j) \<and> length (tx_frames s ! j) \<le> 8) \<and>
      (\<forall>j<length (tx_attempts s).
          tx_attempts s ! j =
            Send (canbus_assigned_id s + 1) (tx_frames s ! j) (hw_send_ret s (hw_sends s + j))) \<and>
      length (tx_attempts s) =
        (if tx_taken s < length (tx_frames s) then Suc (tx_taken s) else length (tx_frames s)) \<and>
      (\<forall>j<tx_taken s. 0 < hw_send_ret s (hw_sends s + j)) \<and>
      (tx_taken s < length (tx_frames s) \<longrightarrow> hw_send_ret s (hw_sends s + tx_taken s) \<le> 0) \<and>
      tx_sent_bytes s = take (length (tx_sent_bytes s)) (unsent s) \<and>
      unsent (canbus_tx_task s) = drop (length (tx_sent_bytes s)) (unsent s) \<and>
      wire_bytes (canbus_assigned_id s + 1) (trace (canbus_tx_task s)) =
        wire_bytes (canbus_assigned_id s + 1) (trace s) @ tx_sent_bytes s"
    if h: "canbus_tx_wake s \<and> canbus_assigned_id s \<noteq> 0 \<and> tx_inv s"
  proof -
    have woken: "canbus_tx_wake s" and cid: "canbus_assigned_id s \<noteq> 0" and inv: "tx_inv s"
      using h by blast+
    note eff = tx_task_effect [OF woken cid inv]
    show ?thesis
      by (intro conjI tx_task_runs [OF woken cid inv] eff(4) cc frames attempts len taken
          stops tx_sent_prefix eff(2) eff(3))
  qed
  have p2: "canbus_tx_task s = s\<lparr>canbus_tx_wake := False, transmit_pos := 0, transmit_max := 0\<rparr>"
    if h: "canbus_tx_wake s \<and> canbus_assigned_id s = 0"
    using h by (intro tx_task_unassigned) blast+
  have p3: "tx_inv (tx_run ops s) \<and>
      canbus_assigned_id (tx_run ops s) = canbus_assigned_id s \<and>
      wire_bytes (canbus_assigned_id s + 1) (trace (tx_run ops s)) @ unsent (tx_run ops s) =
        wire_bytes (canbus_assigned_id s + 1) (trace s) @ unsent s @ tx_buffered ops s \<and>
      (length (unsent s) + tx_declared ops \<le> 96 \<longrightarrow> tx_buffered ops s = tx_msgs ops)"
    if h: "LENGTH('w) < 32 \<and> canbus_assigned_id s \<noteq> 0 \<and> tx_inv s \<and> encoders_ok ops"
    using h by (intro tx_run_fifo) blast+
  have p4: "unsent (canbus_tx_task s) = [] \<and>
      wire_bytes (canbus_assigned_id s + 1) (trace (canbus_tx_task s)) =
        wire_bytes (canbus_assigned_id s + 1) (trace s) @ unsent s"
    if h: "canbus_tx_wake s \<and> canbus_assigned_id s \<noteq> 0 \<and> tx_inv s \<and>
      (\<forall>j<length (tx_frames s). 0 < hw_send_ret s (hw_sends s + j))"
  proof -
    have woken: "canbus_tx_wake s" and cid: "canbus_assigned_id s \<noteq> 0" and inv: "tx_inv s"
      and ok: "\<forall>j<length (tx_frames s). 0 < hw_send_ret s (hw_sends s + j)"
      using h by blast+
    show ?thesis
      by (intro conjI tx_task_flushes [OF woken cid inv ok])
  qed
  have p5: "canbus_tx_wake (console_sendf m msg s) \<and>
      trace (console_sendf m msg s) = trace s @ [WakeTask TX] \<and>
      unsent (console_sendf m msg s) = unsent s @ msg \<and>
      tx_inv (console_sendf m msg s) \<and>
      canbus_assigned_id (console_sendf m msg s) = canbus_assigned_id s \<and>
      trace (canbus_tx_task (console_sendf m msg s)) =
        trace s @ [WakeTask TX] @
        tx_events (canbus_assigned_id s + 1) (chunks8 (unsent s @ msg))
          (hw_send_ret s) (hw_sends s)"
    if h: "LENGTH('w) < 32 \<and> canbus_assigned_id s \<noteq> 0 \<and> tx_inv s \<and> length msg \<le> unat m \<and>
      length (unsent s) + unat m \<le> 96"
  proof -
    let ?e = "console_sendf m msg s"
    have w: "LENGTH('w) < 32" and cid: "canbus_assigned_id s \<noteq> 0" and inv: "tx_inv s"
      and enc: "length msg \<le> unat m" and room: "length (unsent s) + unat m \<le> 96"
      using h by blast+
    note wk = sendf_wakes [OF w inv room, of msg]
    have un: "unsent ?e = unsent s @ msg"
      using room unfolding sendf_unsent [OF w inv enc] by simp
    have inv': "tx_inv ?e"
      by (rule sendf_preserves_inv [OF w inv enc])
    have cid': "canbus_assigned_id ?e \<noteq> 0"
      unfolding sendf_frame(1) by (rule cid)
    have att: "tx_attempts ?e =
        tx_events (canbus_assigned_id s + 1) (chunks8 (unsent s @ msg))
          (hw_send_ret s) (hw_sends s)"
      unfolding tx_attempts_def tx_frames_def un sendf_frame(1) sendf_frame(2) sendf_frame(3) ..
    have "trace (canbus_tx_task ?e) = trace ?e @ tx_attempts ?e"
      unfolding tx_task_runs [OF wk(1) cid' inv'] by simp
    then have tr: "trace (canbus_tx_task ?e) =
        trace s @ [WakeTask TX] @
        tx_events (canbus_assigned_id s + 1) (chunks8 (unsent s @ msg))
          (hw_send_ret s) (hw_sends s)"
      unfolding att wk(2) by simp
    show ?thesis
      by (intro conjI wk un inv' sendf_frame(1) tr)
  qed
  have p6: "unsent (tx_run (ops @ [RunTxTask]) s) = [] \<and>
      wire_bytes (canbus_assigned_id s + 1) (trace (tx_run (ops @ [RunTxTask]) s)) =
        wire_bytes (canbus_assigned_id s + 1) (trace s) @ unsent s @ tx_buffered ops s \<and>
      (length (unsent s) + tx_declared ops \<le> 96 \<longrightarrow>
         wire_bytes (canbus_assigned_id s + 1) (trace (tx_run (ops @ [RunTxTask]) s)) =
           wire_bytes (canbus_assigned_id s + 1) (trace s) @ unsent s @ tx_msgs ops)"
    if h: "LENGTH('w) < 32 \<and> canbus_assigned_id s \<noteq> 0 \<and> tx_inv s \<and> encoders_ok ops \<and>
      (canbus_tx_wake s \<or> unsent s = []) \<and> (\<forall>n. 0 < hw_send_ret s n)"
  proof -
    have w: "LENGTH('w) < 32" and cid: "canbus_assigned_id s \<noteq> 0" and inv: "tx_inv s"
      and enc: "encoders_ok ops" and live: "canbus_tx_wake s \<or> unsent s = []"
      and ok: "\<forall>n. 0 < hw_send_ret s n"
      using h by blast+
    note fl = tx_run_flushes [OF w cid inv enc ok live]
    have fit: "length (unsent s) + tx_declared ops \<le> 96 \<longrightarrow> tx_buffered ops s = tx_msgs ops"
      using tx_run_fifo [OF w cid inv enc] by blast
    have all: "wire_bytes (canbus_assigned_id s + 1) (trace (tx_run (ops @ [RunTxTask]) s)) =
           wire_bytes (canbus_assigned_id s + 1) (trace s) @ unsent s @ tx_msgs ops"
      if f: "length (unsent s) + tx_declared ops \<le> 96"
      using fl(2) fit f by simp
    show ?thesis
      by (rule conjI, rule fl(1), rule conjI, rule fl(2), rule impI, erule all)
  qed
  show ?thesis
    by (rule conjI, rule impI, erule p1, rule conjI, rule impI, erule p2, rule conjI,
        rule impI, erule p3, rule conjI, rule impI, erule p4, rule conjI, rule impI, erule p5,
        rule impI, erule p6)
qed

theorem tx_task_sends_fifo_witness:
  "unsent (canbus_tx_task
     ((boot_state (\<lambda>n. 8))\<lparr>canbus_assigned_id := 0x10A, canbus_tx_wake := True,
        transmit_buf := [1, 2, 3, 4, 5, 6, 7, 8, 9, 10] @ replicate 86 0,
        transmit_max := 10\<rparr>)) = [] \<and>
   wire_bytes 0x10B (trace (canbus_tx_task
     ((boot_state (\<lambda>n. 8))\<lparr>canbus_assigned_id := 0x10A, canbus_tx_wake := True,
        transmit_buf := [1, 2, 3, 4, 5, 6, 7, 8, 9, 10] @ replicate 86 0,
        transmit_max := 10\<rparr>))) = [1, 2, 3, 4, 5, 6, 7, 8, 9, 10] \<and>
   wire_bytes 0x10B (trace (tx_run [Enqueue (4 :: u8) [1, 2, 3], RunTxTask, Enqueue 2 [4, 5]]
       ((boot_state (\<lambda>n. 8))\<lparr>canbus_assigned_id := 0x10A\<rparr>))) @
     unsent (tx_run [Enqueue (4 :: u8) [1, 2, 3], RunTxTask, Enqueue 2 [4, 5]]
       ((boot_state (\<lambda>n. 8))\<lparr>canbus_assigned_id := 0x10A\<rparr>)) = [1, 2, 3, 4, 5] \<and>
   canbus_tx_wake (console_sendf (4 :: u8) [1, 2, 3]
       ((boot_state (\<lambda>n. 8))\<lparr>canbus_assigned_id := 0x10A\<rparr>)) \<and>
   trace (canbus_tx_task (console_sendf (4 :: u8) [1, 2, 3]
       ((boot_state (\<lambda>n. 8))\<lparr>canbus_assigned_id := 0x10A\<rparr>))) =
     [WakeTask TX, Send 0x10B [1, 2, 3] 8] \<and>
   unsent (tx_run ([Enqueue (4 :: u8) [1, 2, 3], RunTxTask, Enqueue 2 [4, 5]] @ [RunTxTask])
       ((boot_state (\<lambda>n. 8))\<lparr>canbus_assigned_id := 0x10A\<rparr>)) = [] \<and>
   wire_bytes 0x10B
     (trace (tx_run ([Enqueue (4 :: u8) [1, 2, 3], RunTxTask, Enqueue 2 [4, 5]] @ [RunTxTask])
       ((boot_state (\<lambda>n. 8))\<lparr>canbus_assigned_id := 0x10A\<rparr>))) = [1, 2, 3, 4, 5] \<and>
   trace (canbus_tx_task
     ((boot_state (\<lambda>n. if n = 1 then 0 else 8))\<lparr>canbus_assigned_id := 0x10A,
        canbus_tx_wake := True,
        transmit_buf := [1, 2, 3, 4, 5, 6, 7, 8, 9, 10] @ replicate 86 0,
        transmit_max := 10\<rparr>)) =
     [Send 0x10B [1, 2, 3, 4, 5, 6, 7, 8] 8, Send 0x10B [9, 10] 0] \<and>
   unat (transmit_pos (canbus_tx_task
     ((boot_state (\<lambda>n. if n = 1 then 0 else 8))\<lparr>canbus_assigned_id := 0x10A,
        canbus_tx_wake := True,
        transmit_buf := [1, 2, 3, 4, 5, 6, 7, 8, 9, 10] @ replicate 86 0,
        transmit_max := 10\<rparr>))) = 8 \<and>
   unsent (canbus_tx_task
     ((boot_state (\<lambda>n. if n = 1 then 0 else 8))\<lparr>canbus_assigned_id := 0x10A,
        canbus_tx_wake := True,
        transmit_buf := [1, 2, 3, 4, 5, 6, 7, 8, 9, 10] @ replicate 86 0,
        transmit_max := 10\<rparr>)) = [9, 10] \<and>
   canbus_tx_task
     ((boot_state (\<lambda>n. 8))\<lparr>canbus_tx_wake := True, transmit_pos := 2, transmit_max := 5\<rparr>) =
     (boot_state (\<lambda>n. 8))\<lparr>canbus_tx_wake := False, transmit_pos := 0, transmit_max := 0\<rparr>"
proof -
  let ?s = "(boot_state (\<lambda>n. 8))\<lparr>canbus_assigned_id := 0x10A, canbus_tx_wake := True,
        transmit_buf := [1, 2, 3, 4, 5, 6, 7, 8, 9, 10] @ replicate 86 0,
        transmit_max := 10\<rparr>"
  let ?t = "(boot_state (\<lambda>n. 8))\<lparr>canbus_assigned_id := 0x10A\<rparr>"
  let ?r = "(boot_state (\<lambda>n. if n = 1 then 0 else 8))\<lparr>canbus_assigned_id := 0x10A,
        canbus_tx_wake := True,
        transmit_buf := [1, 2, 3, 4, 5, 6, 7, 8, 9, 10] @ replicate 86 0,
        transmit_max := 10\<rparr>"
  let ?z = "(boot_state (\<lambda>n. 8))\<lparr>canbus_tx_wake := True, transmit_pos := 2, transmit_max := 5\<rparr>"
  let ?ops = "[Enqueue (4 :: u8) [1, 2, 3], RunTxTask, Enqueue 2 [4, 5]]"
  have u: "unsent ?s = [1, 2, 3, 4, 5, 6, 7, 8, 9, 10]"
    by (simp add: unsent_def boot_state_def)
  have h4: "canbus_tx_wake ?s \<and> canbus_assigned_id ?s \<noteq> 0 \<and> tx_inv ?s \<and>
      (\<forall>j<length (tx_frames ?s). 0 < hw_send_ret ?s (hw_sends ?s + j))"
    by (simp add: tx_inv_def boot_state_def)
  have a: "unsent (canbus_tx_task ?s) = [] \<and>
      wire_bytes 0x10B (trace (canbus_tx_task ?s)) = [1, 2, 3, 4, 5, 6, 7, 8, 9, 10]"
    using tx_task_sends_fifo [where s = ?s and ops = ?ops, THEN conjunct2, THEN conjunct2,
        THEN conjunct2, THEN conjunct1, rule_format, OF h4]
    unfolding u by (simp add: boot_state_def)
  have h3: "LENGTH(8) < 32 \<and> canbus_assigned_id ?t \<noteq> 0 \<and> tx_inv ?t \<and> encoders_ok ?ops"
    by (simp add: tx_inv_def boot_state_def)
  have fit: "length (unsent ?t) + tx_declared ?ops \<le> 96"
    by (simp add: unsent_def boot_state_def)
  note th3 = tx_task_sends_fifo [where s = ?t and ops = ?ops, THEN conjunct2, THEN conjunct2,
        THEN conjunct1, rule_format, OF h3]
  have "tx_buffered ?ops ?t = tx_msgs ?ops"
    using th3 fit by blast
  moreover have "wire_bytes (canbus_assigned_id ?t + 1) (trace (tx_run ?ops ?t)) @
      unsent (tx_run ?ops ?t) =
      wire_bytes (canbus_assigned_id ?t + 1) (trace ?t) @ unsent ?t @ tx_buffered ?ops ?t"
    using th3 by blast
  ultimately have b: "wire_bytes 0x10B (trace (tx_run ?ops ?t)) @ unsent (tx_run ?ops ?t)
      = [1, 2, 3, 4, 5]"
    by (simp add: unsent_def boot_state_def)
  have ut: "unsent ?t = []"
    by (simp add: unsent_def boot_state_def)
  have h5: "LENGTH(8) < 32 \<and> canbus_assigned_id ?t \<noteq> 0 \<and> tx_inv ?t \<and>
      length [1, 2, 3 :: u8] \<le> unat (4 :: u8) \<and> length (unsent ?t) + unat (4 :: u8) \<le> 96"
    unfolding ut by (simp add: tx_inv_def boot_state_def)
  note th5 = tx_task_sends_fifo [where s = ?t and ops = ?ops and m = "4 :: u8"
        and msg = "[1, 2, 3]", THEN conjunct2, THEN conjunct2, THEN conjunct2, THEN conjunct2,
        THEN conjunct1, rule_format, OF h5]
  have c1: "canbus_tx_wake (console_sendf (4 :: u8) [1, 2, 3] ?t)"
    using th5 by (rule conjunct1)
  have ev: "tx_events (canbus_assigned_id ?t + 1) (chunks8 ([] @ [1, 2, 3])) (hw_send_ret ?t)
      (hw_sends ?t) = [Send 0x10B [1, 2, 3] 8]"
    by (simp add: chunks8_Cons boot_state_def)
  have "trace (canbus_tx_task (console_sendf (4 :: u8) [1, 2, 3] ?t)) =
      trace ?t @ [WakeTask TX] @
        tx_events (canbus_assigned_id ?t + 1) (chunks8 (unsent ?t @ [1, 2, 3]))
          (hw_send_ret ?t) (hw_sends ?t)"
    using th5 by (elim conjE)
  then have c2: "trace (canbus_tx_task (console_sendf (4 :: u8) [1, 2, 3] ?t)) =
      [WakeTask TX, Send 0x10B [1, 2, 3] 8]"
    unfolding ut ev by (simp add: boot_state_def)
  have h6: "LENGTH(8) < 32 \<and> canbus_assigned_id ?t \<noteq> 0 \<and> tx_inv ?t \<and> encoders_ok ?ops \<and>
      (canbus_tx_wake ?t \<or> unsent ?t = []) \<and> (\<forall>n. 0 < hw_send_ret ?t n)"
    unfolding ut by (simp add: tx_inv_def boot_state_def)
  note th6 = tx_task_sends_fifo [where s = ?t and ops = ?ops, THEN conjunct2, THEN conjunct2,
        THEN conjunct2, THEN conjunct2, THEN conjunct2, rule_format, OF h6]
  have d1: "unsent (tx_run (?ops @ [RunTxTask]) ?t) = []"
    using th6 by (rule conjunct1)
  have "wire_bytes (canbus_assigned_id ?t + 1) (trace (tx_run (?ops @ [RunTxTask]) ?t)) =
      wire_bytes (canbus_assigned_id ?t + 1) (trace ?t) @ unsent ?t @ tx_msgs ?ops"
    using th6 [THEN conjunct2, THEN conjunct2, rule_format, OF fit] .
  then have d2: "wire_bytes 0x10B (trace (tx_run (?ops @ [RunTxTask]) ?t)) = [1, 2, 3, 4, 5]"
    unfolding ut by (simp add: boot_state_def)
  have h1: "canbus_tx_wake ?r \<and> canbus_assigned_id ?r \<noteq> 0 \<and> tx_inv ?r"
    by (simp add: tx_inv_def boot_state_def)
  note th1 = tx_task_sends_fifo [where s = ?r and ops = ?ops, THEN conjunct1, rule_format, OF h1]
  have ur: "unsent ?r = [1, 2, 3, 4, 5, 6, 7, 8, 9, 10]"
    by (simp add: unsent_def boot_state_def)
  have fr: "tx_frames ?r = [[1, 2, 3, 4, 5, 6, 7, 8], [9, 10]]"
    unfolding tx_frames_def ur by (simp add: chunks8_Cons)
  have at: "tx_attempts ?r = [Send 0x10B [1, 2, 3, 4, 5, 6, 7, 8] 8, Send 0x10B [9, 10] 0]"
    unfolding tx_attempts_def fr by (simp add: boot_state_def)
  have sb: "tx_sent_bytes ?r = [1, 2, 3, 4, 5, 6, 7, 8]"
    unfolding tx_sent_bytes_def tx_taken_def fr by (simp add: boot_state_def)
  have "canbus_tx_task ?r =
        ?r\<lparr>canbus_tx_wake := False,
          transmit_pos := of_nat (unat (transmit_pos ?r) + length (tx_sent_bytes ?r)),
          hw_sends := hw_sends ?r + length (tx_attempts ?r),
          trace := trace ?r @ tx_attempts ?r\<rparr>"
    using th1 by (rule conjunct1)
  then have "trace (canbus_tx_task ?r) = trace ?r @ tx_attempts ?r"
    by simp
  then have e1: "trace (canbus_tx_task ?r) =
      [Send 0x10B [1, 2, 3, 4, 5, 6, 7, 8] 8, Send 0x10B [9, 10] 0]"
    unfolding at by (simp add: boot_state_def)
  have "unat (transmit_pos (canbus_tx_task ?r)) = unat (transmit_pos ?r) + length (tx_sent_bytes ?r)"
    using th1 [THEN conjunct2] by (rule conjunct1)
  then have e2: "unat (transmit_pos (canbus_tx_task ?r)) = 8"
    unfolding sb by (simp add: boot_state_def)
  have "unsent (canbus_tx_task ?r) = drop (length (tx_sent_bytes ?r)) (unsent ?r)"
    using th1 by (elim conjE)
  then have e3: "unsent (canbus_tx_task ?r) = [9, 10]"
    unfolding sb ur by simp
  have h2: "canbus_tx_wake ?z \<and> canbus_assigned_id ?z = 0"
    by (simp add: boot_state_def)
  have "canbus_tx_task ?z = ?z\<lparr>canbus_tx_wake := False, transmit_pos := 0, transmit_max := 0\<rparr>"
    using tx_task_sends_fifo [where s = ?z and ops = ?ops, THEN conjunct2, THEN conjunct1,
        rule_format, OF h2] .
  then have f: "canbus_tx_task ?z =
      (boot_state (\<lambda>n. 8))\<lparr>canbus_tx_wake := False, transmit_pos := 0, transmit_max := 0\<rparr>"
    by simp
  show ?thesis
    using a b by (intro conjI c1 c2 d1 d2 e1 e2 e3 f) simp_all
qed

text \<open>
  C9. The two operations on the transmit buffer keep \<open>0 \<le> position \<le> limit \<le> 96\<close>
  (and the array its 96 bytes): the enqueue when the encoder writes at most the declared
  \<open>max_size\<close> bytes (a field narrower than 32 bits), the transmit task always. The
  invariant holds at start-up.
\<close>

theorem tx_invariant_preserved:
  fixes ce_max_size :: "'w::len word"
  shows "(LENGTH('w) < 32 \<and> tx_inv s \<and> length msg \<le> unat ce_max_size \<longrightarrow>
            tx_inv (console_sendf ce_max_size msg s)) \<and>
         (tx_inv s \<longrightarrow> tx_inv (canbus_tx_task s)) \<and>
         tx_inv (boot_state hw)"
proof -
  have p1: "tx_inv (console_sendf ce_max_size msg s)"
    if h: "LENGTH('w) < 32 \<and> tx_inv s \<and> length msg \<le> unat ce_max_size"
    using h by (intro sendf_preserves_inv) blast+
  have p2: "tx_inv (canbus_tx_task s)" if h: "tx_inv s"
    using h by (rule tx_task_preserves_inv)
  have p3: "tx_inv (boot_state hw)"
    by (simp add: tx_inv_def boot_state_def)
  show ?thesis
    by (rule conjI, rule impI, erule p1, rule conjI, rule impI, erule p2, rule p3)
qed

theorem tx_invariant_preserved_witness:
  "tx_inv (console_sendf (10 :: u8) [1, 2, 3]
      ((boot_state (\<lambda>n. 8))\<lparr>transmit_pos := 90, transmit_max := 94\<rparr>)) \<and>
   tx_inv (canbus_tx_task
      ((boot_state (\<lambda>n. 8))\<lparr>canbus_assigned_id := 0x10A, canbus_tx_wake := True,
         transmit_pos := 90, transmit_max := 94\<rparr>))"
proof -
  let ?s = "(boot_state (\<lambda>n. 8))\<lparr>transmit_pos := 90, transmit_max := 94\<rparr>"
  let ?t = "(boot_state (\<lambda>n. 8))\<lparr>canbus_assigned_id := 0x10A, canbus_tx_wake := True,
         transmit_pos := 90, transmit_max := 94\<rparr>"
  have h: "LENGTH(8) < 32 \<and> tx_inv ?s \<and> length [1, 2, 3 :: u8] \<le> unat (10 :: u8)"
    by (simp add: tx_inv_def boot_state_def)
  have g: "tx_inv ?t"
    by (simp add: tx_inv_def boot_state_def)
  have "tx_inv (console_sendf (10 :: u8) [1, 2, 3] ?s)"
    using tx_invariant_preserved [where s = ?s and ce_max_size = "10 :: u8" and msg = "[1, 2, 3]",
        THEN conjunct1, rule_format, OF h] .
  moreover have "tx_inv (canbus_tx_task ?t)"
    using tx_invariant_preserved [where s = ?t and ce_max_size = "10 :: u8",
        THEN conjunct2, THEN conjunct1, rule_format, OF g] .
  ultimately show ?thesis
    by (rule conjI)
qed

section \<open>Lemmas on the receive task\<close>

lemma process_data_eq:
  assumes inv: "rx_inv s"
  shows "can_process_data cid len data s =
     s\<lparr>receive_buf :=
         memcpy_at (receive_buf s) (unat (receive_pos s)) data
           (min (unat len) (192 - unat (receive_pos s))),
       receive_pos :=
         of_nat (unat (receive_pos s) + min (unat len) (192 - unat (receive_pos s)))\<rparr>"
proof -
  let ?r = "unat (receive_pos s)"
  let ?rpos = "ucast (receive_pos s) :: u32"
  have r: "?r \<le> 192"
    using inv by (simp add: rx_inv_def)
  have "?rpos \<le> 192"
    using r by (simp add: word_le_nat_alt)
  then have room: "unat (192 - ?rpos) = 192 - ?r"
    using unat_sub [of ?rpos 192] by simp
  let ?len = "if len > 192 - ?rpos then 192 - ?rpos else len"
  have n: "unat ?len = min (unat len) (192 - ?r)"
    using room by (auto simp add: word_less_nat_alt)
  have p: "(ucast (?rpos + ?len) :: u8) = of_nat (?r + min (unat len) (192 - ?r))"
  proof -
    have "unat (?rpos + ?len) = ?r + min (unat len) (192 - ?r)"
      using r n by (simp only: unat_word_ariths) simp
    then show ?thesis
      by (rule ucast_u32_u8)
  qed
  show ?thesis
    unfolding can_process_data_def Let_def
    by (simp only: n p unat_ucast_u8)
qed


lemma process_data_effect:
  assumes inv: "rx_inv s" and dlen: "unat len \<le> length data"
  shows "rx_inv (can_process_data cid len data s)"
    and "unat (receive_pos (can_process_data cid len data s)) =
           unat (receive_pos s) + min (unat len) (192 - unat (receive_pos s))"
    and "take (unat (receive_pos s)) (receive_buf (can_process_data cid len data s)) =
           take (unat (receive_pos s)) (receive_buf s)"
    and "take (min (unat len) (192 - unat (receive_pos s)))
           (drop (unat (receive_pos s)) (receive_buf (can_process_data cid len data s))) =
         take (min (unat len) (192 - unat (receive_pos s))) data"
    and "drop (unat (receive_pos s) + min (unat len) (192 - unat (receive_pos s)))
           (receive_buf (can_process_data cid len data s)) =
         drop (unat (receive_pos s) + min (unat len) (192 - unat (receive_pos s)))
           (receive_buf s)"
proof -
  let ?r = "unat (receive_pos s)"
  let ?n = "min (unat len) (192 - ?r)"
  let ?s' = "can_process_data cid len data s"
  have r: "?r \<le> 192" and l: "length (receive_buf s) = 192"
    using inv by (simp_all add: rx_inv_def)
  have nd: "?n \<le> length data"
    using dlen by simp
  have "?r + ?n < 256"
    using r by simp
  then have u: "unat (of_nat (?r + ?n) :: u8) = ?r + ?n"
    by (rule unat_of_nat_u8)
  have f: "receive_buf ?s' = memcpy_at (receive_buf s) ?r data ?n"
    "receive_pos ?s' = of_nat (?r + ?n)"
    unfolding process_data_eq [OF inv] by simp_all
  show "unat (receive_pos ?s') = ?r + ?n"
    unfolding f(2) by (rule u)
  have len': "length (receive_buf ?s') = 192"
    unfolding f(1) using r l nd by (simp add: memcpy_at_length)
  show "rx_inv ?s'"
    unfolding rx_inv_def f(2) u using len' r by simp
  show "take ?r (receive_buf ?s') = take ?r (receive_buf s)"
    unfolding f(1) using r l by (simp add: memcpy_at_def)
  show "take ?n (drop ?r (receive_buf ?s')) = take ?n data"
    unfolding f(1) using r l nd by (simp add: memcpy_at_def)
  show "drop (?r + ?n) (receive_buf ?s') = drop (?r + ?n) (receive_buf s)"
    unfolding f(1) using r l nd by (simp add: memcpy_at_def)
qed

lemma process_data_frame:
  "canbus_assigned_id (can_process_data cid len data s) = canbus_assigned_id s"
  "hw_send_ret (can_process_data cid len data s) = hw_send_ret s"
  "trace (can_process_data cid len data s) = trace s"
  by (simp_all add: can_process_data_def Let_def)

lemma can_send_uuid_SomeD2:
  assumes "can_send_uuid K s = Some s'"
  shows "hw_send_ret s' = hw_send_ret s"
proof -
  from assms obtain d where "can_send_uuid_retry (CANBUS_ID_ADMIN_RESP K) d s = Some s'"
    unfolding can_send_uuid_def Let_def by blast
  from retry_SomeD [OF this] obtain k where "retried (CANBUS_ID_ADMIN_RESP K) d s s' k" ..
  then have "s' = s\<lparr>hw_sends := hw_sends s + Suc k,
            trace := trace s @
              send_attempts (hw_send_ret s) (hw_sends s) (CANBUS_ID_ADMIN_RESP K) (take 8 d) (Suc k)\<rparr>"
    unfolding retried_def by blast
  then show ?thesis
    by simp
qed

lemma can_send_uuid_total:
  assumes "\<exists>k. first_accept (hw_send_ret s) (hw_sends s) k"
  shows "\<exists>s'. can_send_uuid K s = Some s'"
proof -
  from assms obtain k where k: "first_accept (hw_send_ret s) (hw_sends s) k" ..
  show ?thesis
    unfolding can_send_uuid_def Let_def
    using retry_accepts [OF k] by blast
qed

text \<open>An admin command leaves the receive buffer alone.\<close>

lemma map_option_SomeD: "map_option g x = Some y \<Longrightarrow> \<exists>z. x = Some z \<and> y = g z"
  by (cases x) auto

lemma can_process_rx:
  assumes "can_process K cid len data s = Some f"
  shows "receive_pos (state_of f) = receive_pos s \<and> receive_buf (state_of f) = receive_buf s \<and>
         hw_send_ret (state_of f) = hw_send_ret s"
proof -
  have su: "receive_pos s' = receive_pos t \<and> receive_buf s' = receive_buf t \<and>
      hw_send_ret s' = hw_send_ret t" if "can_send_uuid K t = Some s'" for t s'
    using can_send_uuid_SomeD [OF that] can_send_uuid_SomeD2 [OF that] by simp
  have cont: "receive_pos (state_of f) = receive_pos t \<and>
      receive_buf (state_of f) = receive_buf t \<and> hw_send_ret (state_of f) = hw_send_ret t"
    if "map_option Continue (can_send_uuid K t) = Some f" for t
  proof -
    from map_option_SomeD [OF that] obtain z where "can_send_uuid K t = Some z" "f = Continue z"
      by blast
    then show ?thesis
      using su [of t z] by simp
  qed
  have halt: "receive_pos (state_of f) = receive_pos t \<and>
      receive_buf (state_of f) = receive_buf t \<and> hw_send_ret (state_of f) = hw_send_ret t"
    if "map_option (shutdown m) (can_send_uuid K t) = Some f" for t m
  proof -
    from map_option_SomeD [OF that] obtain z where "can_send_uuid K t = Some z" "f = shutdown m z"
      by blast
    then show ?thesis
      using su [of t z] by (simp add: shutdown_def)
  qed
  consider (none) "f = Continue s"
    | (uuid) "map_option Continue (can_send_uuid K s) = Some f"
    | (assign) "map_option Continue (can_send_uuid K
          (canbus_set_filter (can_decode_id (uint (data ! 7)))
            (s\<lparr>canbus_assigned_id := can_decode_id (uint (data ! 7))\<rparr>))) = Some f"
    | (evict) "map_option (shutdown ''Another CAN node assigned this ID'')
          (can_send_uuid K (canbus_set_filter 0 (s\<lparr>canbus_assigned_id := 0\<rparr>))) = Some f"
    | (reboot) "f = canbus_reboot s"
    using assms
    unfolding can_process_def can_process_query_unassigned_def can_process_query_def
      can_process_set_canid_def can_process_reboot_def Let_def
    by (auto split: if_splits)
  then show ?thesis
  proof cases
    case none
    then show ?thesis by simp
  next
    case uuid
    then show ?thesis by (rule cont)
  next
    case assign
    from cont [OF this] show ?thesis
      by (simp add: canbus_set_filter_def)
  next
    case evict
    from halt [OF this] show ?thesis
      by (simp add: canbus_set_filter_def)
  next
    case reboot
    then show ?thesis by (simp add: canbus_reboot_def)
  qed
qed


lemma can_process_total:
  assumes acc: "\<forall>n. \<exists>k. first_accept (hw_send_ret s) n k"
  shows "\<exists>f. can_process K cid len data s = Some f"
proof -
  have su: "\<exists>s'. can_send_uuid K t = Some s'" if "hw_send_ret t = hw_send_ret s" for t
    using acc that by (intro can_send_uuid_total) simp
  have c: "\<exists>f. map_option g (can_send_uuid K t) = Some f"
    if "hw_send_ret t = hw_send_ret s" for t and g :: "canbus \<Rightarrow> canbus flow"
    using su [OF that] by auto
  have q0: "\<exists>f. can_process_query_unassigned K cid len data s = Some f"
    unfolding can_process_query_unassigned_def by (simp add: c su)
  have q1: "\<exists>f. can_process_query K cid len data s = Some f"
    unfolding can_process_query_def by (simp add: c su)
  have q2: "\<exists>f. can_process_set_canid K cid len data s = Some f"
    unfolding can_process_set_canid_def Let_def by (simp add: c su canbus_set_filter_def)
  have q3: "\<exists>f. can_process_reboot K cid len data s = Some f"
    unfolding can_process_reboot_def by simp
  show ?thesis
    unfolding can_process_def by (simp add: q0 q1 q2 q3)
qed

lemma read_loop_data:
  assumes "cid \<noteq> 0 \<and> cid = canbus_assigned_id s"
  shows "canbus_rx_read_loop K ((cid, data) # frames) s =
     canbus_rx_read_loop K frames (can_process_data cid (of_nat (length data)) data s)"
  by (simp only: canbus_rx_read_loop.simps) (rule if_P [OF assms])

lemma read_loop_admin:
  assumes "\<not> (cid \<noteq> 0 \<and> cid = canbus_assigned_id s)" and "cid = CANBUS_ID_ADMIN K"
  shows "canbus_rx_read_loop K ((cid, data) # frames) s =
     (case can_process K cid (of_nat (length data)) data s of
        None \<Rightarrow> None
      | Some (Halt s') \<Rightarrow> Some (Halt s')
      | Some (Continue s') \<Rightarrow> canbus_rx_read_loop K frames s')"
  by (simp only: canbus_rx_read_loop.simps)
     (simp only: if_not_P [OF assms(1)] if_P [OF assms(2)])

lemma read_loop_skip:
  assumes "\<not> (cid \<noteq> 0 \<and> cid = canbus_assigned_id s)" and "cid \<noteq> CANBUS_ID_ADMIN K"
  shows "canbus_rx_read_loop K ((cid, data) # frames) s = canbus_rx_read_loop K frames s"
  by (simp only: canbus_rx_read_loop.simps)
     (simp only: if_not_P [OF assms(1)] if_not_P [OF assms(2)])

lemma read_loop_inv:
  assumes "rx_inv s" and "canbus_rx_read_loop K frames s = Some f"
  shows "rx_inv (state_of f)"
  using assms
proof (induction frames arbitrary: s)
  case Nil
  then show ?case by auto
next
  case (Cons fr frames)
  obtain cid data where fr: "fr = (cid, data)"
    by (cases fr)
  have dl: "unat (of_nat (length data) :: u32) \<le> length data"
    by (simp add: unat_of_nat)
  show ?case
  proof (cases "cid \<noteq> 0 \<and> cid = canbus_assigned_id s")
    case True
    let ?s1 = "can_process_data cid (of_nat (length data)) data s"
    have "canbus_rx_read_loop K frames ?s1 = Some f"
      using Cons.prems(2) unfolding fr read_loop_data [OF True] .
    moreover have "rx_inv ?s1"
      by (rule process_data_effect(1) [OF Cons.prems(1) dl])
    ultimately show ?thesis
      by (rule Cons.IH [rotated])
  next
    case nd: False
    show ?thesis
    proof (cases "cid = CANBUS_ID_ADMIN K")
      case False
      have "canbus_rx_read_loop K frames s = Some f"
        using Cons.prems(2) unfolding fr read_loop_skip [OF nd False] .
      then show ?thesis
        by (rule Cons.IH [OF Cons.prems(1)])
    next
      case True
      let ?r = "can_process K cid (of_nat (length data)) data s"
      have eq: "(case ?r of None \<Rightarrow> None | Some (Halt s') \<Rightarrow> Some (Halt s')
                 | Some (Continue s') \<Rightarrow> canbus_rx_read_loop K frames s') = Some f"
        using Cons.prems(2) unfolding fr read_loop_admin [OF nd True] .
      then obtain g where g: "?r = Some g"
        by (cases ?r) auto
      have keep: "rx_inv (state_of g)"
        using can_process_rx [OF g] Cons.prems(1) by (simp add: rx_inv_def)
      show ?thesis
      proof (cases g)
        case (Continue s')
        then have "canbus_rx_read_loop K frames s' = Some f"
          using eq g by simp
        moreover have "rx_inv s'"
          using keep Continue by simp
        ultimately show ?thesis
          by (rule Cons.IH [rotated])
      next
        case (Halt s')
        then have "f = Halt s'"
          using eq g by simp
        then show ?thesis
          using keep Halt by simp
      qed
    qed
  qed
qed

lemma read_loop_total:
  assumes "\<forall>n. \<exists>k. first_accept (hw_send_ret s) n k"
  shows "\<exists>f. canbus_rx_read_loop K frames s = Some f"
  using assms
proof (induction frames arbitrary: s)
  case Nil
  then show ?case by simp
next
  case (Cons fr frames)
  obtain cid data where fr: "fr = (cid, data)"
    by (cases fr)
  show ?case
  proof (cases "cid \<noteq> 0 \<and> cid = canbus_assigned_id s")
    case True
    let ?s1 = "can_process_data cid (of_nat (length data)) data s"
    have "\<forall>n. \<exists>k. first_accept (hw_send_ret ?s1) n k"
      using Cons.prems by (simp add: process_data_frame)
    from Cons.IH [OF this] show ?thesis
      unfolding fr read_loop_data [OF True] .
  next
    case nd: False
    show ?thesis
    proof (cases "cid = CANBUS_ID_ADMIN K")
      case False
      show ?thesis
        unfolding fr read_loop_skip [OF nd False] by (rule Cons.IH [OF Cons.prems])
    next
      case True
      from can_process_total [OF Cons.prems] obtain g
        where g: "can_process K cid (of_nat (length data)) data s = Some g"
        by blast
      show ?thesis
      proof (cases g)
        case (Continue s')
        have "hw_send_ret s' = hw_send_ret s"
          using can_process_rx [OF g] Continue by simp
        then have "\<forall>n. \<exists>k. first_accept (hw_send_ret s') n k"
          using Cons.prems by simp
        from Cons.IH [OF this] show ?thesis
          unfolding fr read_loop_admin [OF nd True] g Continue by simp
      next
        case (Halt s')
        show ?thesis
          unfolding fr read_loop_admin [OF nd True] g Halt by simp
      qed
    qed
  qed
qed

lemma needcopy_words:
  fixes rpos pop_count :: u8
  assumes "unat pop_count \<le> unat rpos"
  shows "(word_of_int (uint rpos - uint pop_count) :: u8) = rpos - pop_count"
    and "unat (word_of_int (uint rpos - uint pop_count) :: u32) = unat rpos - unat pop_count"
    and "uint rpos - uint pop_count = 0 \<longleftrightarrow> unat rpos = unat pop_count"
proof -
  show "(word_of_int (uint rpos - uint pop_count) :: u8) = rpos - pop_count"
    by simp
  have a: "uint rpos = int (unat rpos)" and b: "uint pop_count = int (unat pop_count)"
    by (simp_all only: uint_nat)
  have d: "uint rpos - uint pop_count = int (unat rpos - unat pop_count)"
    unfolding a b using assms by linarith
  have "unat rpos - unat pop_count < 256"
    using unat_u8_bound [of rpos] by linarith
  then have "unat (of_nat (unat rpos - unat pop_count) :: u32) = unat rpos - unat pop_count"
    by (simp only: unat_of_nat) simp
  then show "unat (word_of_int (uint rpos - uint pop_count) :: u32) = unat rpos - unat pop_count"
    unfolding d by (simp only: of_int_of_nat_eq)
  show "uint rpos - uint pop_count = 0 \<longleftrightarrow> unat rpos = unat pop_count"
    unfolding a b using assms by linarith
qed

lemma rx_pop_none:
  assumes "cfd (receive_buf s) (receive_pos s) = (ret, pop_count)" and "ret = 0"
  shows "canbus_rx_pop cfd s = s"
  unfolding canbus_rx_pop_def Let_def using assms by simp

lemma rx_pop_all:
  assumes "cfd (receive_buf s) (receive_pos s) = (ret, pop_count)" and "ret \<noteq> 0"
    and "pop_count = receive_pos s"
  shows "canbus_rx_pop cfd s = s\<lparr>receive_pos := 0\<rparr>"
  unfolding canbus_rx_pop_def Let_def using assms by simp

lemma rx_pop_some:
  assumes c: "cfd (receive_buf s) (receive_pos s) = (ret, pop_count)" and r: "ret \<noteq> 0"
    and lt: "unat pop_count < unat (receive_pos s)"
  shows "canbus_rx_pop cfd s =
     (canbus_notify_rx
        (s\<lparr>receive_buf :=
             memcpy_at (receive_buf s) 0 (drop (unat pop_count) (receive_buf s))
               (unat (receive_pos s) - unat pop_count)\<rparr>))
     \<lparr>receive_pos := receive_pos s - pop_count\<rparr>"
proof -
  have le: "unat pop_count \<le> unat (receive_pos s)"
    using lt by simp
  note w = needcopy_words [OF le]
  have nz: "uint (receive_pos s) - uint pop_count \<noteq> 0"
    using lt w(3) by simp
  show ?thesis
    unfolding canbus_rx_pop_def Let_def c prod.case
    by (simp only: r nz w(1,2) not_False_eq_True if_True)
qed


lemma rx_pop_some_effect:
  assumes c: "cfd (receive_buf s) (receive_pos s) = (ret, pop_count)" and r: "ret \<noteq> 0"
    and lt: "unat pop_count < unat (receive_pos s)" and inv: "rx_inv s"
  shows "unat (receive_pos (canbus_rx_pop cfd s)) = unat (receive_pos s) - unat pop_count"
    and "take (unat (receive_pos s) - unat pop_count) (receive_buf (canbus_rx_pop cfd s)) =
         take (unat (receive_pos s) - unat pop_count) (drop (unat pop_count) (receive_buf s))"
    and "canbus_rx_wake (canbus_rx_pop cfd s)"
    and "trace (canbus_rx_pop cfd s) = trace s @ [WakeTask RX]"
    and "rx_inv (canbus_rx_pop cfd s)"
proof -
  let ?r = "unat (receive_pos s)" and ?p = "unat pop_count"
  let ?s' = "canbus_rx_pop cfd s"
  have le: "pop_count \<le> receive_pos s"
    using lt by (simp add: word_le_nat_alt)
  have u: "unat (receive_pos s - pop_count) = ?r - ?p"
    by (rule unat_sub [OF le])
  have r192: "?r \<le> 192" and len: "length (receive_buf s) = 192"
    using inv by (simp_all add: rx_inv_def)
  have f: "receive_pos ?s' = receive_pos s - pop_count"
    "receive_buf ?s' = memcpy_at (receive_buf s) 0 (drop ?p (receive_buf s)) (?r - ?p)"
    "canbus_rx_wake ?s'" "trace ?s' = trace s @ [WakeTask RX]"
    unfolding rx_pop_some [where cfd = cfd and s = s, OF c r lt]
    by (simp_all add: canbus_notify_rx_def sched_wake_task_def)
  show "unat (receive_pos ?s') = ?r - ?p"
    unfolding f(1) by (rule u)
  show "take (?r - ?p) (receive_buf ?s') = take (?r - ?p) (drop ?p (receive_buf s))"
    unfolding f(2) using lt r192 len by (simp add: memcpy_at_def)
  show "canbus_rx_wake ?s'"
    by (rule f(3))
  show "trace ?s' = trace s @ [WakeTask RX]"
    by (rule f(4))
  have "length (receive_buf ?s') = 192"
    unfolding f(2) using lt r192 len by (simp add: memcpy_at_length)
  then show "rx_inv ?s'"
    unfolding rx_inv_def f(1) u using r192 by simp
qed

lemma rx_task_idle:
  assumes "\<not> canbus_rx_wake s"
  shows "canbus_rx_task K cfd frames s = Some (Continue s)"
  using assms by (simp add: canbus_rx_task_def sched_check_wake_def)

lemma rx_task_runs:
  assumes "canbus_rx_wake s"
    and "canbus_rx_read_loop K frames (s\<lparr>canbus_rx_wake := False\<rparr>) = Some (Continue s1)"
  shows "canbus_rx_task K cfd frames s = Some (Continue (canbus_rx_pop cfd s1))"
  using assms by (simp add: canbus_rx_task_def sched_check_wake_def)

lemma rx_task_halts:
  assumes "canbus_rx_wake s"
    and "canbus_rx_read_loop K frames (s\<lparr>canbus_rx_wake := False\<rparr>) = Some (Halt s1)"
  shows "canbus_rx_task K cfd frames s = Some (Halt s1)"
  using assms by (simp add: canbus_rx_task_def sched_check_wake_def)

section \<open>The claims on the receive pipeline\<close>

text \<open>
  C6. Appending a data frame, whose length \<open>len\<close> is at most the number of bytes the
  driver read, copies at most \<open>capacity - position\<close> bytes of it: the bytes
  go to \<open>[position, position + n)\<close> with \<open>n = min(len, 192 - position)\<close>, which lies inside
  the 192 bytes of the array, the rest of the frame is dropped, every other byte of the
  array stays, and the new position \<open>position + n\<close> is at most 192. So the read loop of one
  wake keeps the invariant of the receive buffer whatever frames it drains, however many
  and however long; and it does end when the driver accepts each admin response
  eventually.
\<close>

theorem rx_append_stays_in_buffer:
  "(rx_inv s \<and> unat len \<le> length data \<longrightarrow>
      can_process_data cid len data s =
        s\<lparr>receive_buf :=
            memcpy_at (receive_buf s) (unat (receive_pos s)) data
              (min (unat len) (192 - unat (receive_pos s))),
          receive_pos :=
            of_nat (unat (receive_pos s) + min (unat len) (192 - unat (receive_pos s)))\<rparr> \<and>
      unat (receive_pos s) + min (unat len) (192 - unat (receive_pos s))
        \<le> length (receive_buf s) \<and>
      unat (receive_pos (can_process_data cid len data s)) =
        unat (receive_pos s) + min (unat len) (192 - unat (receive_pos s)) \<and>
      unat (receive_pos (can_process_data cid len data s)) \<le> 192 \<and>
      length (receive_buf (can_process_data cid len data s)) = 192 \<and>
      take (unat (receive_pos s)) (receive_buf (can_process_data cid len data s)) =
        take (unat (receive_pos s)) (receive_buf s) \<and>
      take (min (unat len) (192 - unat (receive_pos s)))
        (drop (unat (receive_pos s)) (receive_buf (can_process_data cid len data s))) =
        take (min (unat len) (192 - unat (receive_pos s))) data \<and>
      drop (unat (receive_pos s) + min (unat len) (192 - unat (receive_pos s)))
        (receive_buf (can_process_data cid len data s)) =
        drop (unat (receive_pos s) + min (unat len) (192 - unat (receive_pos s)))
          (receive_buf s)) \<and>
   (rx_inv s \<and> canbus_rx_read_loop K frames s = Some f \<longrightarrow> rx_inv (state_of f)) \<and>
   (rx_inv s \<and> (\<forall>n. \<exists>k. first_accept (hw_send_ret s) n k) \<longrightarrow>
      (\<exists>f. canbus_rx_read_loop K frames s = Some f \<and> rx_inv (state_of f)))"
proof -
  let ?s' = "can_process_data cid len data s"
  let ?r = "unat (receive_pos s)"
  let ?n = "min (unat len) (192 - ?r)"
  have p1: "?s' = s\<lparr>receive_buf := memcpy_at (receive_buf s) ?r data ?n,
          receive_pos := of_nat (?r + ?n)\<rparr> \<and>
      ?r + ?n \<le> length (receive_buf s) \<and>
      unat (receive_pos ?s') = ?r + ?n \<and>
      unat (receive_pos ?s') \<le> 192 \<and>
      length (receive_buf ?s') = 192 \<and>
      take ?r (receive_buf ?s') = take ?r (receive_buf s) \<and>
      take ?n (drop ?r (receive_buf ?s')) = take ?n data \<and>
      drop (?r + ?n) (receive_buf ?s') = drop (?r + ?n) (receive_buf s)"
    if h: "rx_inv s \<and> unat len \<le> length data"
  proof -
    have inv: "rx_inv s" and dlen: "unat len \<le> length data"
      using h by blast+
    note eff = process_data_effect [OF inv dlen, of cid]
    have a: "?r + ?n \<le> length (receive_buf s)"
      using inv unfolding rx_inv_def by linarith
    have b: "unat (receive_pos ?s') \<le> 192" and c: "length (receive_buf ?s') = 192"
      using eff(1) by (simp_all add: rx_inv_def)
    show ?thesis
      by (intro conjI process_data_eq [OF inv] a eff(2) b c eff(3) eff(4) eff(5))
  qed
  have p2: "rx_inv (state_of f)" if h: "rx_inv s \<and> canbus_rx_read_loop K frames s = Some f"
    using h by (intro read_loop_inv [of s K frames f]) blast+
  have p3: "\<exists>f. canbus_rx_read_loop K frames s = Some f \<and> rx_inv (state_of f)"
    if h: "rx_inv s \<and> (\<forall>n. \<exists>k. first_accept (hw_send_ret s) n k)"
  proof -
    have inv: "rx_inv s" and acc: "\<forall>n. \<exists>k. first_accept (hw_send_ret s) n k"
      using h by blast+
    from read_loop_total [OF acc] obtain g where g: "canbus_rx_read_loop K frames s = Some g"
      by blast
    then show ?thesis
      using read_loop_inv [OF inv g] by blast
  qed
  show ?thesis
    by (rule conjI, rule impI, erule p1, rule conjI, rule impI, erule p2, rule impI, erule p3)
qed


theorem rx_append_stays_in_buffer_witness:
  "unat (receive_pos (can_process_data 0x10A 8 [1, 2, 3, 4, 5, 6, 7, 8]
     ((boot_state (\<lambda>n. 8))\<lparr>canbus_assigned_id := 0x10A, receive_pos := 188\<rparr>))) = 192 \<and>
   take 4 (drop 188 (receive_buf (can_process_data 0x10A 8 [1, 2, 3, 4, 5, 6, 7, 8]
     ((boot_state (\<lambda>n. 8))\<lparr>canbus_assigned_id := 0x10A, receive_pos := 188\<rparr>)))) =
     [1, 2, 3, 4] \<and>
   length (receive_buf (can_process_data 0x10A 8 [1, 2, 3, 4, 5, 6, 7, 8]
     ((boot_state (\<lambda>n. 8))\<lparr>canbus_assigned_id := 0x10A, receive_pos := 188\<rparr>))) = 192 \<and>
   rx_inv (state_of (the (canbus_rx_read_loop example_ids
     [(0x10A, [1, 2, 3, 4, 5, 6, 7, 8]), (0x10A, [9, 10, 11, 12, 13, 14, 15, 16])]
     ((boot_state (\<lambda>n. 8))\<lparr>canbus_assigned_id := 0x10A, receive_pos := 188\<rparr>)))) \<and>
   (\<exists>f. canbus_rx_read_loop example_ids
     [(0x10A, [1, 2, 3, 4, 5, 6, 7, 8]), (0x10A, [9, 10, 11, 12, 13, 14, 15, 16])]
     ((boot_state (\<lambda>n. 8))\<lparr>canbus_assigned_id := 0x10A, receive_pos := 188\<rparr>) = Some f \<and>
     rx_inv (state_of f))"
proof -
  let ?s = "(boot_state (\<lambda>n. 8))\<lparr>canbus_assigned_id := 0x10A, receive_pos := 188\<rparr>"
  let ?d = "[1, 2, 3, 4, 5, 6, 7, 8] :: u8 list"
  let ?fr = "[(0x10A, [1, 2, 3, 4, 5, 6, 7, 8]), (0x10A, [9, 10, 11, 12, 13, 14, 15, 16])]
    :: (u32 \<times> u8 list) list"
  note th = rx_append_stays_in_buffer [where s = ?s and K = example_ids and frames = ?fr]
  have inv: "rx_inv ?s"
    by (simp add: rx_inv_def boot_state_def)
  have h1: "rx_inv ?s \<and> unat (8 :: u32) \<le> length ?d"
    using inv by simp
  have r: "unat (receive_pos ?s) = 188" and n: "min (unat (8 :: u32)) (192 - 188) = 4"
    by simp_all
  note a = th [where len = 8 and data = ?d and cid = "0x10A", THEN conjunct1, rule_format, OF h1]
  have a1: "unat (receive_pos (can_process_data 0x10A 8 ?d ?s)) = 192"
    using a [THEN conjunct2, THEN conjunct2, THEN conjunct1] unfolding r n by simp
  have a2: "take 4 (drop 188 (receive_buf (can_process_data 0x10A 8 ?d ?s))) = [1, 2, 3, 4]"
    using a [THEN conjunct2, THEN conjunct2, THEN conjunct2, THEN conjunct2, THEN conjunct2,
      THEN conjunct2, THEN conjunct1]
    unfolding r n by simp
  have a3: "length (receive_buf (can_process_data 0x10A 8 ?d ?s)) = 192"
    using a [THEN conjunct2, THEN conjunct2, THEN conjunct2, THEN conjunct2, THEN conjunct1] .
  have h3: "rx_inv ?s \<and> (\<forall>n. \<exists>k. first_accept (hw_send_ret ?s) n k)"
  proof (rule conjI [OF inv], rule allI)
    fix n
    have "first_accept (hw_send_ret ?s) n 0"
      by (simp add: first_accept_0 boot_state_def)
    then show "\<exists>k. first_accept (hw_send_ret ?s) n k" ..
  qed
  note c = th [where len = 8 and data = ?d and cid = "0x10A" and f = "the (canbus_rx_read_loop example_ids ?fr ?s)",
    THEN conjunct2, THEN conjunct2, rule_format, OF h3]
  then obtain f where f: "canbus_rx_read_loop example_ids ?fr ?s = Some f" and fi: "rx_inv (state_of f)"
    by (elim exE conjE)
  have h2: "rx_inv ?s \<and> canbus_rx_read_loop example_ids ?fr ?s =
      Some (the (canbus_rx_read_loop example_ids ?fr ?s))"
    using inv unfolding f by simp
  note b = th [where len = 8 and data = ?d and cid = "0x10A" and f = "the (canbus_rx_read_loop example_ids ?fr ?s)",
    THEN conjunct2, THEN conjunct1, rule_format, OF h2]
  show ?thesis
    by (intro conjI a1 a2 a3 b c)
qed

text \<open>
  C7. With \<open>s\<close> the state after the frames of a wake were drained, \<open>rpos\<close> its fill length
  and \<open>(ret, pop_count)\<close> the answer of the message boundary detector on the \<open>rpos\<close> buffered
  bytes. A message found (\<open>ret \<noteq> 0\<close>) that leaves \<open>remaining = rpos - pop_count > 0\<close> bytes:
  the remaining bytes \<open>[pop_count, rpos)\<close> are at the start of the buffer, the fill length is
  \<open>remaining\<close>, and the receive task is signalled again. A message found that takes every
  byte: the fill length is 0 and nothing else changes, so the task is not signalled. No
  message found: nothing changes. The task, when woken, is the drain of the pending frames
  followed by this step; when not woken it does nothing.
\<close>

theorem rx_pop_compacts_and_resignals:
  "(rx_inv s \<and> cfd (receive_buf s) (receive_pos s) = (ret, pop_count) \<and> ret \<noteq> 0 \<and>
      unat pop_count < unat (receive_pos s) \<longrightarrow>
      canbus_rx_pop cfd s =
        (canbus_notify_rx
           (s\<lparr>receive_buf :=
                memcpy_at (receive_buf s) 0 (drop (unat pop_count) (receive_buf s))
                  (unat (receive_pos s) - unat pop_count)\<rparr>))
        \<lparr>receive_pos := receive_pos s - pop_count\<rparr> \<and>
      unat (receive_pos (canbus_rx_pop cfd s)) = unat (receive_pos s) - unat pop_count \<and>
      take (unat (receive_pos s) - unat pop_count) (receive_buf (canbus_rx_pop cfd s)) =
        take (unat (receive_pos s) - unat pop_count)
          (drop (unat pop_count) (receive_buf s)) \<and>
      canbus_rx_wake (canbus_rx_pop cfd s) \<and>
      trace (canbus_rx_pop cfd s) = trace s @ [WakeTask RX] \<and>
      rx_inv (canbus_rx_pop cfd s)) \<and>
   (cfd (receive_buf s) (receive_pos s) = (ret, pop_count) \<and> ret \<noteq> 0 \<and>
      pop_count = receive_pos s \<longrightarrow>
      canbus_rx_pop cfd s = s\<lparr>receive_pos := 0\<rparr>) \<and>
   (cfd (receive_buf s) (receive_pos s) = (ret, pop_count) \<and> ret = 0 \<longrightarrow>
      canbus_rx_pop cfd s = s) \<and>
   (canbus_rx_wake s0 \<and>
      canbus_rx_read_loop K frames (s0\<lparr>canbus_rx_wake := False\<rparr>) = Some (Continue s) \<longrightarrow>
      canbus_rx_task K cfd frames s0 = Some (Continue (canbus_rx_pop cfd s))) \<and>
   (\<not> canbus_rx_wake s0 \<longrightarrow> canbus_rx_task K cfd frames s0 = Some (Continue s0))"
proof -
  let ?s' = "canbus_rx_pop cfd s"
  let ?r = "unat (receive_pos s)" and ?p = "unat pop_count"
  have p1: "?s' =
        (canbus_notify_rx
           (s\<lparr>receive_buf :=
                memcpy_at (receive_buf s) 0 (drop ?p (receive_buf s)) (?r - ?p)\<rparr>))
        \<lparr>receive_pos := receive_pos s - pop_count\<rparr> \<and>
      unat (receive_pos ?s') = ?r - ?p \<and>
      take (?r - ?p) (receive_buf ?s') = take (?r - ?p) (drop ?p (receive_buf s)) \<and>
      canbus_rx_wake ?s' \<and>
      trace ?s' = trace s @ [WakeTask RX] \<and>
      rx_inv ?s'"
    if h: "rx_inv s \<and> cfd (receive_buf s) (receive_pos s) = (ret, pop_count) \<and> ret \<noteq> 0 \<and>
      unat pop_count < unat (receive_pos s)"
  proof -
    have inv: "rx_inv s" and c: "cfd (receive_buf s) (receive_pos s) = (ret, pop_count)"
      and r: "ret \<noteq> 0" and lt: "?p < ?r"
      using h by blast+
    note eff = rx_pop_some_effect [where cfd = cfd and s = s, OF c r lt inv]
    show ?thesis
      by (intro conjI rx_pop_some [where cfd = cfd and s = s, OF c r lt] eff)
  qed
  have p2: "?s' = s\<lparr>receive_pos := 0\<rparr>"
    if h: "cfd (receive_buf s) (receive_pos s) = (ret, pop_count) \<and> ret \<noteq> 0 \<and>
      pop_count = receive_pos s"
  proof -
    have c: "cfd (receive_buf s) (receive_pos s) = (ret, pop_count)"
      and r: "ret \<noteq> 0" and e: "pop_count = receive_pos s"
      using h by blast+
    show ?thesis
      by (rule rx_pop_all [where cfd = cfd and s = s, OF c r e])
  qed
  have p3: "?s' = s"
    if h: "cfd (receive_buf s) (receive_pos s) = (ret, pop_count) \<and> ret = 0"
  proof -
    have c: "cfd (receive_buf s) (receive_pos s) = (ret, pop_count)" and r: "ret = 0"
      using h by blast+
    show ?thesis
      by (rule rx_pop_none [where cfd = cfd and s = s, OF c r])
  qed
  have p4: "canbus_rx_task K cfd frames s0 = Some (Continue ?s')"
    if h: "canbus_rx_wake s0 \<and>
      canbus_rx_read_loop K frames (s0\<lparr>canbus_rx_wake := False\<rparr>) = Some (Continue s)"
  proof -
    have w: "canbus_rx_wake s0"
      and l: "canbus_rx_read_loop K frames (s0\<lparr>canbus_rx_wake := False\<rparr>) = Some (Continue s)"
      using h by blast+
    show ?thesis
      by (rule rx_task_runs [OF w l])
  qed
  have p5: "canbus_rx_task K cfd frames s0 = Some (Continue s0)" if h: "\<not> canbus_rx_wake s0"
    by (rule rx_task_idle [OF h])
  show ?thesis
    by (rule conjI, rule impI, erule p1, rule conjI, rule impI, erule p2,
        rule conjI, rule impI, erule p3, rule conjI, rule impI, erule p4, rule impI, erule p5)
qed






theorem rx_pop_compacts_and_resignals_witness:
  "canbus_rx_task example_ids (\<lambda>buf len. if 3 \<le> unat len then (1, 3) else (0, 0))
     [(0x10A, [4, 5])]
     ((boot_state (\<lambda>n. 8))\<lparr>canbus_assigned_id := 0x10A, canbus_rx_wake := True,
        receive_buf := [1, 2, 3] @ replicate 189 0, receive_pos := 3\<rparr>) =
     Some (Continue
       ((boot_state (\<lambda>n. 8))\<lparr>canbus_assigned_id := 0x10A, canbus_rx_wake := True,
          receive_buf := [4, 5, 3, 4, 5] @ replicate 187 0, receive_pos := 2,
          trace := [WakeTask RX]\<rparr>)) \<and>
   canbus_rx_pop (\<lambda>buf len. if 3 \<le> unat len then (1, 3) else (0, 0))
     ((boot_state (\<lambda>n. 8))\<lparr>receive_buf := [1, 2, 3] @ replicate 189 0, receive_pos := 3\<rparr>) =
     (boot_state (\<lambda>n. 8))\<lparr>receive_buf := [1, 2, 3] @ replicate 189 0, receive_pos := 0\<rparr> \<and>
   canbus_rx_pop (\<lambda>buf len. if 3 \<le> unat len then (1, 3) else (0, 0))
     ((boot_state (\<lambda>n. 8))\<lparr>receive_buf := [1, 2] @ replicate 190 0, receive_pos := 2\<rparr>) =
     (boot_state (\<lambda>n. 8))\<lparr>receive_buf := [1, 2] @ replicate 190 0, receive_pos := 2\<rparr> \<and>
   canbus_rx_task example_ids (\<lambda>buf len. if 3 \<le> unat len then (1, 3) else (0, 0))
     [(0x10A, [4, 5])] (boot_state (\<lambda>n. 8)) = Some (Continue (boot_state (\<lambda>n. 8)))"
proof -
  let ?cfd = "(\<lambda>buf len. if 3 \<le> unat len then (1, 3) else (0, 0)) :: u8 list \<Rightarrow> u8 \<Rightarrow> int \<times> u8"
  let ?b = "boot_state (\<lambda>n. 8)"
  let ?ini = "?b\<lparr>canbus_assigned_id := 0x10A, canbus_rx_wake := True,
        receive_buf := [1, 2, 3] @ replicate 189 0, receive_pos := 3\<rparr>"
  let ?s = "?b\<lparr>canbus_assigned_id := 0x10A, canbus_rx_wake := False,
        receive_buf := [1, 2, 3, 4, 5] @ replicate 187 0, receive_pos := 5\<rparr>"
  let ?t = "?b\<lparr>receive_buf := [1, 2, 3] @ replicate 189 0, receive_pos := 3\<rparr>"
  let ?u = "?b\<lparr>receive_buf := [1, 2] @ replicate 190 0, receive_pos := 2\<rparr>"
  let ?fr = "[(0x10A, [4, 5])] :: (u32 \<times> u8 list) list"
  note th = rx_pop_compacts_and_resignals [where cfd = ?cfd and K = example_ids and frames = ?fr]
  have drain: "canbus_rx_read_loop example_ids ?fr (?ini\<lparr>canbus_rx_wake := False\<rparr>) =
      Some (Continue ?s)"
    by (simp add: can_process_data_def boot_state_def memcpy_at_def Let_def)
  have h4: "canbus_rx_wake ?ini \<and>
      canbus_rx_read_loop example_ids ?fr (?ini\<lparr>canbus_rx_wake := False\<rparr>) = Some (Continue ?s)"
    using drain by simp
  have h1: "rx_inv ?s \<and> ?cfd (receive_buf ?s) (receive_pos ?s) = (1, 3) \<and> (1 :: int) \<noteq> 0 \<and>
      unat (3 :: u8) < unat (receive_pos ?s)"
    by (simp add: rx_inv_def boot_state_def)
  note a = th [where s = ?s and ret = 1 and pop_count = 3 and ?s0.0 = ?ini]
  have run: "canbus_rx_task example_ids ?cfd ?fr ?ini = Some (Continue (canbus_rx_pop ?cfd ?s))"
    using a [THEN conjunct2, THEN conjunct2, THEN conjunct2, THEN conjunct1, rule_format, OF h4] .
  have pop: "canbus_rx_pop ?cfd ?s =
      ?b\<lparr>canbus_assigned_id := 0x10A, canbus_rx_wake := True,
          receive_buf := [4, 5, 3, 4, 5] @ replicate 187 0, receive_pos := 2,
          trace := [WakeTask RX]\<rparr>"
    using a [THEN conjunct1, rule_format, OF h1, THEN conjunct1]
    by (simp add: canbus_notify_rx_def sched_wake_task_def memcpy_at_def boot_state_def)
  have c1: "canbus_rx_task example_ids ?cfd ?fr ?ini =
      Some (Continue (?b\<lparr>canbus_assigned_id := 0x10A, canbus_rx_wake := True,
          receive_buf := [4, 5, 3, 4, 5] @ replicate 187 0, receive_pos := 2,
          trace := [WakeTask RX]\<rparr>))"
    using run unfolding pop .
  have h2: "?cfd (receive_buf ?t) (receive_pos ?t) = (1, 3) \<and> (1 :: int) \<noteq> 0 \<and>
      (3 :: u8) = receive_pos ?t"
    by simp
  have c2: "canbus_rx_pop ?cfd ?t = ?b\<lparr>receive_buf := [1, 2, 3] @ replicate 189 0, receive_pos := 0\<rparr>"
    using th [where s = ?t and ret = 1 and pop_count = 3, THEN conjunct2, THEN conjunct1,
      rule_format, OF h2]
    by simp
  have h3: "?cfd (receive_buf ?u) (receive_pos ?u) = (0, 0) \<and> (0 :: int) = 0"
    by simp
  have c3: "canbus_rx_pop ?cfd ?u = ?u"
    using th [where s = ?u and ret = 0 and pop_count = 0, THEN conjunct2, THEN conjunct2,
      THEN conjunct1, rule_format, OF h3] .
  have h5: "\<not> canbus_rx_wake ?b"
    by (simp add: boot_state_def)
  have c4: "canbus_rx_task example_ids ?cfd ?fr ?b = Some (Continue ?b)"
    using th [where ?s0.0 = ?b, THEN conjunct2, THEN conjunct2, THEN conjunct2, THEN conjunct2,
      rule_format, OF h5] .
  show ?thesis
    by (intro conjI c1 c2 c3 c4)
qed

end
